theory Spec2Isabelle
  imports Main "HOL-Library.Char_ord" "HOL-Library.List_Lexorder" "HOL-Library.Multiset"
begin

section \<open>Data model\<close>

text \<open>
  The editor API types the extension reads. A \<open>vscode.Position\<close> is a pair of a line
  and a character offset, both non-negative. A \<open>vscode.Range\<close> (and a
  \<open>vscode.Selection\<close>, which extends it) has a start and an end position.
\<close>

record Position =
  line :: nat
  character :: nat

text \<open>
  Modelled from the spec: the methods of \<open>vscode.Position\<close> and \<open>vscode.Range\<close> are
  part of the editor API, not of the repository. Positions are (line, column) pairs
  compared by line, then by column.
\<close>

definition isBefore :: "Position \<Rightarrow> Position \<Rightarrow> bool" where
  "isBefore a b = (line a < line b \<or> (line a = line b \<and> character a < character b))"

definition isEqual :: "Position \<Rightarrow> Position \<Rightarrow> bool" where
  "isEqual a b = (line a = line b \<and> character a = character b)"

definition isBeforeOrEqual :: "Position \<Rightarrow> Position \<Rightarrow> bool" where
  "isBeforeOrEqual a b = (isBefore a b \<or> isEqual a b)"

record Range =
  start :: Position
  endp :: Position

definition contains :: "Range \<Rightarrow> Range \<Rightarrow> bool" where
  "contains r other = (isBeforeOrEqual (start r) (start other) \<and> isBeforeOrEqual (endp other) (endp r))"

text \<open>
  \<open>interface DiagnosticLoc { range: vscode.Range; uri?: vscode.Uri }\<close>. A uri is
  used only through \<open>toString()\<close>, so it is modelled by that string; \<open>None\<close> is an
  absent \<open>uri\<close> property. JavaScript compares strings lexicographically by code unit,
  which is the order of \<open>string\<close> here.
\<close>

record DiagnosticLoc =
  range_d :: Range
  uri :: "string option"

datatype DiagnosticSeverity = Error | Warning | Information | Hint

text \<open>
  A marker: \<open>vscode.Diagnostic\<close> (whose \<open>uri\<close> is absent) and
  \<open>DiagnosticWithUri\<close> (the same object with a \<open>uri\<close> attached). Only the fields
  the extension reads are kept.
\<close>

record Diagnostic = DiagnosticLoc +
  severity :: DiagnosticSeverity
  source :: "string option"

section \<open>Pattern matcher\<close>

text \<open>
  \<open>globToRe\<close> builds the source text of a regular expression and hands it to the
  JavaScript \<open>RegExp\<close> constructor. The two \<open>replace\<close> calls are modelled on the
  characters of the pattern: the first puts a backslash before each of
  \<open>- / \ ^ $ + ? . ( ) [ ] { }\<close>, the second turns each \<open>*\<close> into \<open>.*\<close>.
\<close>

definition syntaxChars :: "char list" where
  "syntaxChars = ''-/'' @ [CHR 0x5C] @ ''^$+?.()[]{}''"

definition escapeRegExp :: "string \<Rightarrow> string" where
  "escapeRegExp pattern =
     concat (map (\<lambda>c. if c \<in> set syntaxChars then [CHR 0x5C, c] else [c]) pattern)"

definition expandStar :: "string \<Rightarrow> string" where
  "expandStar s = concat (map (\<lambda>c. if c = CHR ''*'' then ''.*'' else [c]) s)"

definition rePattern :: "string \<Rightarrow> string" where
  "rePattern pattern = expandStar (escapeRegExp pattern)"

text \<open>
  Modelled from the spec: the regular expression engine is the JavaScript runtime's, not
  the repository's. The model covers the fragment \<open>globToRe\<close> can produce: alternatives
  separated by \<open>|\<close>, each a sequence of the assertions \<open>^\<close> and \<open>$\<close>, literal
  characters (plain or escaped by a backslash) and the wildcard \<open>.\<close>, each character
  term optionally followed by \<open>*\<close>. No flags are set, so \<open>.\<close> matches any character
  but a line terminator, \<open>^\<close> only the start and \<open>$\<close> only the end of the input.
  \<open>parseRe\<close> returns \<open>None\<close> for a source outside the fragment (where the constructor
  may throw a SyntaxError).
\<close>

datatype ReAtom = AnyChar | Lit char

datatype ReTerm = AssertStart | AssertEnd | One ReAtom | Star ReAtom

type_synonym RegExp = "ReTerm list list"

definition quantifierChars :: "char list" where
  "quantifierChars = ''*+?()[]{}''"

definition lineTerminator :: "char \<Rightarrow> bool" where
  "lineTerminator c = (c = CHR 0x0A \<or> c = CHR 0x0D)"

fun parseRe :: "string \<Rightarrow> ReTerm list \<Rightarrow> RegExp option" where
  "parseRe [] cur = Some [rev cur]"
| "parseRe (c # cs) cur =
     (if c = CHR ''|'' then map_option (Cons (rev cur)) (parseRe cs [])
      else if c = CHR ''^'' then parseRe cs (AssertStart # cur)
      else if c = CHR ''$'' then parseRe cs (AssertEnd # cur)
      else if c = CHR 0x5C then
        (case cs of
           [] \<Rightarrow> None
         | e # r \<Rightarrow>
             if e \<in> set syntaxChars then
               (case r of
                  [] \<Rightarrow> parseRe r (One (Lit e) # cur)
                | q # r' \<Rightarrow> if q = CHR ''*'' then parseRe r' (Star (Lit e) # cur)
                            else parseRe r (One (Lit e) # cur))
             else None)
      else if c \<in> set quantifierChars then None
      else
        (let a = (if c = CHR ''.'' then AnyChar else Lit c) in
         case cs of
           [] \<Rightarrow> parseRe cs (One a # cur)
         | q # r' \<Rightarrow> if q = CHR ''*'' then parseRe r' (Star a # cur)
                     else parseRe cs (One a # cur)))"

definition atomMatches :: "ReAtom \<Rightarrow> char \<Rightarrow> bool" where
  "atomMatches a x = (case a of AnyChar \<Rightarrow> \<not> lineTerminator x | Lit c \<Rightarrow> x = c)"

text \<open>
  \<open>matchTerms ts atStart s\<close>: the terms \<open>ts\<close> match a prefix of \<open>s\<close>, where
  \<open>atStart\<close> says whether \<open>s\<close> is the whole input. Backtracking finds a match whenever
  one exists, so only existence is modelled.
\<close>

fun matchTerms :: "ReTerm list \<Rightarrow> bool \<Rightarrow> string \<Rightarrow> bool" where
  "matchTerms [] atStart s = True"
| "matchTerms (AssertStart # ts) atStart s = (atStart \<and> matchTerms ts atStart s)"
| "matchTerms (AssertEnd # ts) atStart s = (s = [] \<and> matchTerms ts atStart s)"
| "matchTerms (One a # ts) atStart s =
     (case s of [] \<Rightarrow> False | x # xs \<Rightarrow> atomMatches a x \<and> matchTerms ts False xs)"
| "matchTerms (Star a # ts) atStart s =
     (matchTerms ts atStart s \<or>
      (case s of [] \<Rightarrow> False | x # xs \<Rightarrow> atomMatches a x \<and> matchTerms (Star a # ts) False xs))"

fun searchFrom :: "RegExp \<Rightarrow> bool \<Rightarrow> string \<Rightarrow> bool" where
  "searchFrom re atStart [] = list_ex (\<lambda>alt. matchTerms alt atStart []) re"
| "searchFrom re atStart (x # xs) =
     (list_ex (\<lambda>alt. matchTerms alt atStart (x # xs)) re \<or> searchFrom re False xs)"

text \<open>\<open>s.match(re) !== null\<close>: some alternative matches at some index of \<open>s\<close>.\<close>

definition matchRe :: "string \<Rightarrow> RegExp \<Rightarrow> bool" where
  "matchRe s re = searchFrom re True s"

text \<open>
  \<open>RegExp("^" + rePattern + "$")\<close>. The \<open>None\<close> branch stands for a SyntaxError;
  lemma \<open>globToRe_globAlts\<close> below shows that no pattern reaches it.
\<close>

definition globToRe :: "string \<Rightarrow> RegExp" where
  "globToRe pattern =
     (case parseRe (''^'' @ rePattern pattern @ ''$'') [] of Some re \<Rightarrow> re | None \<Rightarrow> [])"

section \<open>Location comparator\<close>

definition compareDiagnosticLoc :: "'a DiagnosticLoc_scheme \<Rightarrow> 'b DiagnosticLoc_scheme \<Rightarrow> int" where
  "compareDiagnosticLoc a b =
     (let byPosition =
            (if isBefore (start (range_d a)) (start (range_d b)) then - 1
             else if isEqual (start (range_d a)) (start (range_d b)) then 0
             else 1)
      in case uri a of
           None \<Rightarrow> byPosition
         | Some uria \<Rightarrow>
             (case uri b of
                None \<Rightarrow> byPosition
              | Some urib \<Rightarrow>
                  if uria = urib then byPosition
                  else if uria < urib then - 1 else 1))"

text \<open>
  Modelled from the spec: \<open>Array.prototype.sort\<close> belongs to the JavaScript runtime. It
  is stable, and for a consistent comparator it returns the elements in ascending order;
  a stable insertion sort does the same.
\<close>

fun insertSorted :: "'a DiagnosticLoc_scheme \<Rightarrow> 'a DiagnosticLoc_scheme list \<Rightarrow> 'a DiagnosticLoc_scheme list" where
  "insertSorted x [] = [x]"
| "insertSorted x (y # ys) =
     (if compareDiagnosticLoc x y \<le> 0 then x # y # ys else y # insertSorted x ys)"

definition sortDiagnostics :: "'a DiagnosticLoc_scheme list \<Rightarrow> 'a DiagnosticLoc_scheme list" where
  "sortDiagnostics diagnostics = foldr insertSorted diagnostics []"

section \<open>Marker filter\<close>

text \<open>
  \<open>args: Args | undefined\<close> arrives raw from the keybinding. \<open>None\<close> is a value that is
  not an object (\<open>null\<close> is outside the declared type and is not modelled).
  \<open>args_severity = None\<close> is a \<open>severity\<close> that is absent or not an array;
  its elements are compared with \<open>===\<close> against string literals only, so an element is
  modelled by a string (any other value behaves as an unrecognised string).
  \<open>args_source = None\<close> is a \<open>source\<close> that is absent, falsy or not an array.
\<close>

record Args =
  args_severity :: "string list option"
  args_source :: "string list option"

text \<open>
  The \<open>switch\<close> inside the \<open>flatMap\<close> callback. It has no default case: for any other
  string the callback returns \<open>undefined\<close> (here \<open>None\<close>), and \<open>flatMap\<close> keeps a
  value that is not an array as one element of its result.
\<close>

definition severityOfString :: "string \<Rightarrow> DiagnosticSeverity option" where
  "severityOfString s =
     (if s = ''error'' then Some Error
      else if s = ''warn'' \<or> s = ''warning'' then Some Warning
      else if s = ''info'' \<or> s = ''information'' then Some Information
      else if s = ''hint'' then Some Hint
      else None)"

text \<open>
  Lines 59 to 81 of \<open>filterDiagnostics\<close>: the set \<open>severities\<close>, Error and Warning unless
  \<open>args.severity\<close> is an array and \<open>argSeverities\<close> is not empty.
\<close>

definition selectedSeverities :: "Args option \<Rightarrow> DiagnosticSeverity option set" where
  "selectedSeverities args =
     (let severities = {Some Error, Some Warning} in
      case args of
        None \<Rightarrow> severities
      | Some a \<Rightarrow>
          (case args_severity a of
             None \<Rightarrow> severities
           | Some sv \<Rightarrow>
               (let argSeverities = map severityOfString sv in
                if length argSeverities > 0 then set argSeverities else severities)))"

text \<open>Line 82: \<open>ds = ds.filter((dg) => severities.has(dg.severity))\<close>.\<close>

definition severityStage :: "'a Diagnostic_scheme list \<Rightarrow> Args option \<Rightarrow> 'a Diagnostic_scheme list" where
  "severityStage ds args = filter (\<lambda>dg. Some (severity dg) \<in> selectedSeverities args) ds"

text \<open>
  Lines 91 to 104: the loop over \<open>args.source\<close>, with the test of its \<open>filter\<close> callback,
  \<open>dg.source !== undefined && dg.source.match(reSource) !== null\<close>.
\<close>

definition matchesSource :: "RegExp \<Rightarrow> 'a Diagnostic_scheme \<Rightarrow> bool" where
  "matchesSource reSource dg = (case source dg of None \<Rightarrow> False | Some s \<Rightarrow> matchRe s reSource)"

fun sourceLoop :: "string list \<Rightarrow> 'a Diagnostic_scheme list \<Rightarrow> 'a Diagnostic_scheme list" where
  "sourceLoop [] ds = []"
| "sourceLoop (src # rest) ds =
     (if src = ''*'' then ds
      else (let reSource = globToRe src;
                dsOfSource = filter (matchesSource reSource) ds
            in if length dsOfSource > 0 then dsOfSource else sourceLoop rest ds))"

definition filterDiagnostics :: "'a Diagnostic_scheme list \<Rightarrow> Args option \<Rightarrow> 'a Diagnostic_scheme list" where
  "filterDiagnostics ds args =
     (let ds' = severityStage ds args in
      case args of
        None \<Rightarrow> ds'
      | Some a \<Rightarrow>
          (case args_source a of
             None \<Rightarrow> ds'
           | Some sources \<Rightarrow> sourceLoop sources ds'))"

definition isFilterErrorOnly :: "Args option \<Rightarrow> bool" where
  "isFilterErrorOnly args =
     (case args of
        None \<Rightarrow> False
      | Some a \<Rightarrow>
          (case args_severity a of
             None \<Rightarrow> False
           | Some sv \<Rightarrow> (case sv of [] \<Rightarrow> False | s # rest \<Rightarrow> s = ''error'')))"

section \<open>Closest-marker selectors\<close>

definition getCloserPrev ::
  "'c DiagnosticLoc_scheme \<Rightarrow> 'a DiagnosticLoc_scheme \<Rightarrow> 'a DiagnosticLoc_scheme option
     \<Rightarrow> 'a DiagnosticLoc_scheme option" where
  "getCloserPrev cursor marker soFarClosest =
     (case soFarClosest of
        None \<Rightarrow> (if compareDiagnosticLoc marker cursor < 0 then Some marker else None)
      | Some best \<Rightarrow>
          (if compareDiagnosticLoc marker cursor \<le> 0 \<and> compareDiagnosticLoc best marker < 0
           then Some marker else Some best))"

definition getCloserNext ::
  "'c DiagnosticLoc_scheme \<Rightarrow> 'a DiagnosticLoc_scheme \<Rightarrow> 'a DiagnosticLoc_scheme option
     \<Rightarrow> 'a DiagnosticLoc_scheme option" where
  "getCloserNext cursor marker soFarClosest =
     (case soFarClosest of
        None \<Rightarrow> (if compareDiagnosticLoc marker cursor \<ge> 0 then Some marker else None)
      | Some best \<Rightarrow>
          (if compareDiagnosticLoc marker cursor \<ge> 0 \<and> compareDiagnosticLoc best marker > 0
           then Some marker else Some best))"

section \<open>Navigation session\<close>

datatype Direction = Next | Prev

record LastPosition =
  uri_lp :: string
  position :: Position

record TextEditor =
  document_uri :: string
  selection :: Range
  visibleRanges :: "Range list"

datatype Effect =
    ExecuteCommand string
  | RevealRange Range
  | SetTimeout nat
  | ShowTextDocument string

text \<open>
  The state a command runs in: the session variable \<open>lastPosition\<close> of \<open>activate\<close>, and
  what the host shows to the extension: the active editor, the diagnostics of every
  document (\<open>vscode.languages.getDiagnostics()\<close>, a list of pairs of a uri and its
  markers, which are \<open>vscode.Diagnostic\<close> objects and so have no uri of their own),
  the \<open>editor.smoothScrolling\<close> setting and the editor that
  \<open>showTextDocument\<close> returns for a document. \<open>effects\<close> records the calls made to the
  host, in order. The commands are awaited one after the other, so a call is one
  sequential state transformer.
\<close>

record World =
  lastPosition :: "LastPosition option"
  activeTextEditor :: "TextEditor option"
  allDiagnostics :: "(string \<times> Diagnostic list) list"
  smoothScrolling :: bool
  showTextDocument :: "string \<Rightarrow> TextEditor"
  effects :: "Effect list"

definition getDiagnostics :: "World \<Rightarrow> string \<Rightarrow> Diagnostic list" where
  "getDiagnostics w u = (case map_of (allDiagnostics w) u of None \<Rightarrow> [] | Some ds \<Rightarrow> ds)"

text \<open>
  The \<open>for\<close> loop of \<open>gotoMarkerInFile\<close> and of \<open>gotoNextMarkerInFiles\<close> (the same
  text in both): a marker whose start equals \<open>lastPosition.position\<close> is skipped with
  \<open>continue\<close>, every other marker goes through the selector of the direction.
\<close>

fun markerLoop ::
  "LastPosition option \<Rightarrow> Direction \<Rightarrow> 'c DiagnosticLoc_scheme \<Rightarrow> 'a DiagnosticLoc_scheme list
     \<Rightarrow> 'a DiagnosticLoc_scheme option \<Rightarrow> 'a DiagnosticLoc_scheme option" where
  "markerLoop lastPos direction cursor [] next = next"
| "markerLoop lastPos direction cursor (d # ds) next =
     (if (case lastPos of None \<Rightarrow> False | Some lp \<Rightarrow> isEqual (start (range_d d)) (position lp))
      then markerLoop lastPos direction cursor ds next
      else markerLoop lastPos direction cursor ds
             (case direction of
                Next \<Rightarrow> getCloserNext cursor d next
              | Prev \<Rightarrow> getCloserPrev cursor d next))"

text \<open>\<open>sortedMarkers[0]\<close> or \<open>sortedMarkers[sortedMarkers.length - 1]\<close>; both callers
  reach it with a non-empty list only.\<close>

definition wrapAround :: "Direction \<Rightarrow> 'a DiagnosticLoc_scheme list \<Rightarrow> 'a DiagnosticLoc_scheme" where
  "wrapAround direction diagnostics =
     (let sortedMarkers = sortDiagnostics diagnostics in
      case direction of Next \<Rightarrow> hd sortedMarkers | Prev \<Rightarrow> last sortedMarkers)"

text \<open>Lines 183 to 186: forget \<open>lastPosition\<close> when it belongs to another document.\<close>

definition resetLastPosition :: "TextEditor \<Rightarrow> World \<Rightarrow> World" where
  "resetLastPosition editor w =
     (if map_option uri_lp (lastPosition w) \<noteq> Some (document_uri editor)
      then w\<lparr>lastPosition := None\<rparr> else w)"

text \<open>Lines 231 to 268: what \<open>gotoMarkerInFile\<close> does once it has a target.\<close>

definition showMarkerInFile :: "Args option \<Rightarrow> TextEditor \<Rightarrow> Diagnostic \<Rightarrow> World \<Rightarrow> bool \<times> World" where
  "showMarkerInFile args editor n w =
     (let editor' = editor\<lparr>selection := \<lparr>start = start (range_d n), endp = start (range_d n)\<rparr>\<rparr>;
          w' = w\<lparr>lastPosition := Some \<lparr>uri_lp = document_uri editor, position = start (range_d n)\<rparr>,
                 activeTextEditor := Some editor',
                 effects := effects w @ [ExecuteCommand ''closeMarkersNavigation'']\<rparr>
      in if isFilterErrorOnly args
         then (True, w'\<lparr>effects := effects w' @ [ExecuteCommand ''editor.action.marker.next'']\<rparr>)
         else
           (let scroll =
                  (if \<not> list_all (\<lambda>r. contains r (selection editor')) (visibleRanges editor')
                   then RevealRange (range_d n) # (if smoothScrolling w then [SetTimeout 150] else [])
                   else [])
            in (True, w'\<lparr>effects := effects w' @ scroll @ [ExecuteCommand ''editor.action.showHover'']\<rparr>)))"

definition gotoMarkerInFile :: "Args option \<Rightarrow> Direction \<Rightarrow> bool \<Rightarrow> World \<Rightarrow> bool \<times> World" where
  "gotoMarkerInFile args direction loop w =
     (case activeTextEditor w of
        None \<Rightarrow> (False, w)
      | Some editor \<Rightarrow>
          (let diagnostics = filterDiagnostics (getDiagnostics w (document_uri editor)) args;
               w1 = resetLastPosition editor w
           in if length diagnostics = 0 then (False, w1)
              else
                (let cursor = \<lparr>range_d = selection editor, uri = None\<rparr>;
                     next = markerLoop (lastPosition w1) direction cursor diagnostics None
                 in if next = None \<and> loop
                    then
                      (let n = wrapAround direction diagnostics in
                       if (case lastPosition w1 of
                             None \<Rightarrow> False
                           | Some lp \<Rightarrow> isEqual (position lp) (start (range_d n)) \<and>
                                        isEqual (start (selection editor)) (start (range_d n)))
                       then (True, w1)
                       else showMarkerInFile args editor n w1)
                    else
                      (case next of
                         None \<Rightarrow> (False, w1)
                       | Some n \<Rightarrow> showMarkerInFile args editor n w1))))"

text \<open>
  \<open>next.uri\<close> of a \<open>DiagnosticWithUri\<close>. Every marker of \<open>gotoNextMarkerInFiles\<close> is
  built with its uri attached, so the \<open>None\<close> branch is never taken there.
\<close>

definition uriOf :: "'a DiagnosticLoc_scheme \<Rightarrow> string" where
  "uriOf d = (case uri d of None \<Rightarrow> [] | Some u \<Rightarrow> u)"

definition diagnosticsWithUri :: "World \<Rightarrow> Diagnostic list" where
  "diagnosticsWithUri w =
     concat (map (\<lambda>(u, ds). map (\<lambda>d. d\<lparr>uri := Some u\<rparr>) ds) (allDiagnostics w))"

definition gotoNextMarkerInFiles :: "Args option \<Rightarrow> Direction \<Rightarrow> World \<Rightarrow> World" where
  "gotoNextMarkerInFiles args direction w =
     (let diagnostics = filterDiagnostics (diagnosticsWithUri w) args in
      if length diagnostics = 0 then w
      else
        (let cursor =
               (case activeTextEditor w of
                  None \<Rightarrow> \<lparr>range_d = \<lparr>start = \<lparr>line = 0, character = 0\<rparr>,
                                       endp = \<lparr>line = 0, character = 0\<rparr>\<rparr>,
                            uri = Some ''file:///''\<rparr>
                | Some activeEditor \<Rightarrow>
                    \<lparr>range_d = selection activeEditor, uri = Some (document_uri activeEditor)\<rparr>);
             next = markerLoop (lastPosition w) direction cursor diagnostics None;
             n = (case next of None \<Rightarrow> wrapAround direction diagnostics | Some m \<Rightarrow> m);
             editor = (showTextDocument w (uriOf n))
                        \<lparr>selection := \<lparr>start = start (range_d n), endp = start (range_d n)\<rparr>\<rparr>
         in w\<lparr>lastPosition := Some \<lparr>uri_lp = uriOf n, position = start (range_d n)\<rparr>,
              activeTextEditor := Some editor,
              effects := effects w @
                [ShowTextDocument (uriOf n), ExecuteCommand ''closeMarkersNavigation'',
                 ExecuteCommand (case direction of
                                   Next \<Rightarrow> ''editor.action.marker.nextInFiles''
                                 | Prev \<Rightarrow> ''editor.action.marker.prevInFiles'')]\<rparr>))"

section \<open>Notions used to state the properties\<close>

text \<open>
  Two locations are compared by position exactly when one of them has no uri or both
  have the same: the test of \<open>compareDiagnosticLoc\<close>.
\<close>

definition sameDocument :: "'a DiagnosticLoc_scheme \<Rightarrow> 'b DiagnosticLoc_scheme \<Rightarrow> bool" where
  "sameDocument a b = (uri a = None \<or> uri b = None \<or> uri a = uri b)"

text \<open>
  A list of markers is uri-consistent when every marker has a uri, or every two are
  compared by position. The candidate markers of a navigation always are:
  \<open>gotoMarkerInFile\<close> reads markers without a uri, \<open>gotoNextMarkerInFiles\<close> attaches
  one to each.
\<close>

definition uriConsistent :: "'a DiagnosticLoc_scheme list \<Rightarrow> bool" where
  "uriConsistent S =
     ((\<forall>s\<in>set S. uri s \<noteq> None) \<or> (\<forall>s\<in>set S. \<forall>t\<in>set S. sameDocument s t))"

text \<open>The fold of \<open>getCloserNext\<close> over a list of candidates, starting from null.\<close>

definition foldNext :: "'c DiagnosticLoc_scheme \<Rightarrow> 'a DiagnosticLoc_scheme list \<Rightarrow> 'a DiagnosticLoc_scheme option" where
  "foldNext C S = foldl (\<lambda>best d. getCloserNext C d best) None S"

text \<open>\<open>m\<close> is a minimum of the candidates of \<open>S\<close> that are at or after the cursor \<open>C\<close>.\<close>

definition isMinimumAtOrAfter ::
  "'c DiagnosticLoc_scheme \<Rightarrow> 'a DiagnosticLoc_scheme list \<Rightarrow> 'a DiagnosticLoc_scheme \<Rightarrow> bool" where
  "isMinimumAtOrAfter C S m =
     (m \<in> set S \<and> compareDiagnosticLoc m C \<ge> 0 \<and>
      (\<forall>s\<in>set S. compareDiagnosticLoc s C \<ge> 0 \<longrightarrow> compareDiagnosticLoc m s \<le> 0))"

text \<open>
  The matcher as the specification words it: the pattern against the whole candidate,
  \<open>*\<close> for zero or more characters, every other character for itself. \<open>wild\<close> says which
  characters a \<open>*\<close> may stand for; the specification's matcher is
  \<open>globMatchesWith (\<lambda>c. True)\<close>.
\<close>

fun globMatchesWith :: "(char \<Rightarrow> bool) \<Rightarrow> string \<Rightarrow> string \<Rightarrow> bool" where
  "globMatchesWith wild [] s = (s = [])"
| "globMatchesWith wild (c # p) s =
     (if c = CHR ''*''
      then (globMatchesWith wild p s \<or>
            (case s of [] \<Rightarrow> False | x # xs \<Rightarrow> wild x \<and> globMatchesWith wild (c # p) xs))
      else (case s of [] \<Rightarrow> False | x # xs \<Rightarrow> x = c \<and> globMatchesWith wild p xs))"

text \<open>
  The alternatives of a pattern: its pieces between the \<open>|\<close> characters, which the README
  documents as the way to give multiple patterns in one entry.
\<close>

fun splitBar :: "string \<Rightarrow> string \<Rightarrow> string list" where
  "splitBar [] cur = [rev cur]"
| "splitBar (c # p) cur =
     (if c = CHR ''|'' then rev cur # splitBar p [] else splitBar p (c # cur))"

definition alternatives :: "string \<Rightarrow> string list" where
  "alternatives p = splitBar p []"

text \<open>
  The markers a source pattern selects: all of them for the full wildcard \<open>"*"\<close>, those
  with a defined source that the compiled pattern matches otherwise.
\<close>

definition patternSelects :: "string \<Rightarrow> 'a Diagnostic_scheme \<Rightarrow> bool" where
  "patternSelects p dg = (p = ''*'' \<or> matchesSource (globToRe p) dg)"

text \<open>The regular expression of a pattern, read off the pattern (used in the proofs).\<close>

definition globTerm :: "char \<Rightarrow> ReTerm" where
  "globTerm c = (if c = CHR ''*'' then Star AnyChar else One (Lit c))"

fun globAlts :: "string \<Rightarrow> ReTerm list \<Rightarrow> RegExp" where
  "globAlts [] cur = [rev (AssertEnd # cur)]"
| "globAlts (c # p) cur =
     (if c = CHR ''|'' then rev cur # globAlts p [] else globAlts p (globTerm c # cur))"

section \<open>Sample values\<close>

text \<open>Concrete locations, markers and states for the worked examples below.\<close>

definition locAt :: "string option \<Rightarrow> nat \<Rightarrow> nat \<Rightarrow> DiagnosticLoc" where
  "locAt u l c =
     \<lparr>range_d = \<lparr>start = \<lparr>line = l, character = c\<rparr>, endp = \<lparr>line = l, character = c\<rparr>\<rparr>, uri = u\<rparr>"

definition markerAt :: "string option \<Rightarrow> nat \<Rightarrow> nat \<Rightarrow> DiagnosticSeverity \<Rightarrow> string option \<Rightarrow> Diagnostic" where
  "markerAt u l c sev src =
     \<lparr>range_d = \<lparr>start = \<lparr>line = l, character = c\<rparr>, endp = \<lparr>line = l, character = c\<rparr>\<rparr>, uri = u,
      severity = sev, source = src\<rparr>"

definition editorAt :: "string \<Rightarrow> nat \<Rightarrow> nat \<Rightarrow> TextEditor" where
  "editorAt u l c =
     \<lparr>document_uri = u,
      selection = \<lparr>start = \<lparr>line = l, character = c\<rparr>, endp = \<lparr>line = l, character = c\<rparr>\<rparr>,
      visibleRanges = [\<lparr>start = \<lparr>line = 0, character = 0\<rparr>, endp = \<lparr>line = 100, character = 0\<rparr>\<rparr>]\<rparr>"

definition worldOf :: "LastPosition option \<Rightarrow> TextEditor option \<Rightarrow> (string \<times> Diagnostic list) list \<Rightarrow> World" where
  "worldOf lp ed diags =
     \<lparr>lastPosition = lp, activeTextEditor = ed, allDiagnostics = diags, smoothScrolling = False,
      showTextDocument = (\<lambda>u. editorAt u 0 0), effects = []\<rparr>"

section \<open>Properties\<close>

subsection \<open>Positions and the comparator\<close>

lemma isBefore_cases: "isBefore p q \<or> isEqual p q \<or> isBefore q p"
  by (auto simp: isBefore_def isEqual_def)

lemma isBefore_not_sym: "isBefore p q \<Longrightarrow> \<not> isBefore q p"
  by (auto simp: isBefore_def)

lemma isBefore_not_eq: "isBefore p q \<Longrightarrow> \<not> isEqual p q" "isBefore p q \<Longrightarrow> \<not> isEqual q p"
  by (auto simp: isBefore_def isEqual_def)

lemma isBefore_trans: "isBefore p q \<Longrightarrow> isBefore q r \<Longrightarrow> isBefore p r"
  by (auto simp: isBefore_def)

lemma isEqual_sym: "isEqual p q = isEqual q p"
  by (auto simp: isEqual_def)

lemma isEqual_refl: "isEqual p p"
  by (simp add: isEqual_def)

lemma isEqual_iff: "isEqual p q \<longleftrightarrow> p = q"
  by (auto simp: isEqual_def)

lemma isBefore_eq_right: "isEqual p q \<Longrightarrow> isBefore r p = isBefore r q"
  by (simp add: isEqual_def isBefore_def)

lemma sameDocument_sym: "sameDocument a b = sameDocument b a"
  by (auto simp: sameDocument_def)

lemma cmp_same: "sameDocument a b \<Longrightarrow> compareDiagnosticLoc a b =
   (if isBefore (start (range_d a)) (start (range_d b)) then - 1
    else if isEqual (start (range_d a)) (start (range_d b)) then 0 else 1)"
  by (auto simp: compareDiagnosticLoc_def sameDocument_def Let_def split: option.splits)

lemma cmp_diff: "\<not> sameDocument a b \<Longrightarrow> compareDiagnosticLoc a b =
   (if the (uri a) < the (uri b) then - 1 else 1)"
  by (auto simp: compareDiagnosticLoc_def sameDocument_def Let_def split: option.splits)

lemma diff_uri_neq: "\<not> sameDocument a b \<Longrightarrow> the (uri a) \<noteq> the (uri b)"
  by (auto simp: sameDocument_def)

lemma cmp_neg_iff: "compareDiagnosticLoc a b < 0 \<longleftrightarrow>
    (if sameDocument a b then isBefore (start (range_d a)) (start (range_d b))
     else the (uri a) < the (uri b))"
  by (simp add: cmp_same cmp_diff)

lemma cmp_zero_iff: "compareDiagnosticLoc a b = 0 \<longleftrightarrow>
    sameDocument a b \<and> isEqual (start (range_d a)) (start (range_d b))"
  using isBefore_not_eq(1)[of "start (range_d a)" "start (range_d b)"]
  by (cases "sameDocument a b") (auto simp add: cmp_same cmp_diff)

lemma cmp_pos_iff: "compareDiagnosticLoc a b > 0 \<longleftrightarrow>
    (if sameDocument a b then isBefore (start (range_d b)) (start (range_d a))
     else the (uri b) < the (uri a))"
  using isBefore_cases[of "start (range_d a)" "start (range_d b)"]
    isBefore_not_sym[of "start (range_d a)" "start (range_d b)"]
    isBefore_not_eq(2)[of "start (range_d b)" "start (range_d a)"]
    diff_uri_neq[of a b]
  by (cases "sameDocument a b") (auto simp add: cmp_same cmp_diff)

lemma cmp_range:
  "compareDiagnosticLoc a b = - 1 \<or> compareDiagnosticLoc a b = 0 \<or> compareDiagnosticLoc a b = 1"
  by (cases "sameDocument a b") (simp_all add: cmp_same cmp_diff)

lemma cmp_refl: "compareDiagnosticLoc a a = 0"
  by (simp add: cmp_zero_iff isEqual_refl sameDocument_def)

lemma cmp_antisym: "compareDiagnosticLoc b a = - compareDiagnosticLoc a b"
proof -
  consider "compareDiagnosticLoc a b < 0" | "compareDiagnosticLoc a b = 0" | "compareDiagnosticLoc a b > 0"
    by linarith
  then show ?thesis
  proof cases
    case 1
    then have "compareDiagnosticLoc b a > 0"
      by (simp add: cmp_neg_iff cmp_pos_iff sameDocument_sym[of b a])
    with 1 show ?thesis using cmp_range[of a b] cmp_range[of b a] by linarith
  next
    case 2
    then have "compareDiagnosticLoc b a = 0"
      by (simp add: cmp_zero_iff sameDocument_sym[of b a] isEqual_sym[of "start (range_d b)"])
    with 2 show ?thesis by simp
  next
    case 3
    then have "compareDiagnosticLoc b a < 0"
      by (simp add: cmp_neg_iff cmp_pos_iff sameDocument_sym[of b a])
    with 3 show ?thesis using cmp_range[of a b] cmp_range[of b a] by linarith
  qed
qed

lemma cmp_le_iff: "compareDiagnosticLoc a b \<le> 0 \<longleftrightarrow> \<not> compareDiagnosticLoc a b > 0"
  by linarith

lemma cmp_trans_less:
  assumes "(uri a \<noteq> None \<and> uri b \<noteq> None \<and> uri c \<noteq> None) \<or>
           (sameDocument a b \<and> sameDocument b c \<and> sameDocument a c)"
    and "compareDiagnosticLoc a b < 0" and "compareDiagnosticLoc b c < 0"
  shows "compareDiagnosticLoc a c < 0"
  using assms(1)
proof
  assume s: "sameDocument a b \<and> sameDocument b c \<and> sameDocument a c"
  with assms(2,3) show ?thesis
    by (auto simp: cmp_neg_iff intro: isBefore_trans)
next
  assume u: "uri a \<noteq> None \<and> uri b \<noteq> None \<and> uri c \<noteq> None"
  then obtain ua ub uc where [simp]: "uri a = Some ua" "uri b = Some ub" "uri c = Some uc" by auto
  from assms(2,3) show ?thesis
    by (auto simp: cmp_neg_iff sameDocument_def split: if_splits intro: isBefore_trans)
qed

lemma cmp_trans_le:
  assumes "(uri a \<noteq> None \<and> uri b \<noteq> None \<and> uri c \<noteq> None) \<or>
           (sameDocument a b \<and> sameDocument b c \<and> sameDocument a c)"
    and "compareDiagnosticLoc a b \<le> 0" and "compareDiagnosticLoc b c \<le> 0"
  shows "compareDiagnosticLoc a c \<le> 0"
  using assms(1)
proof
  assume s: "sameDocument a b \<and> sameDocument b c \<and> sameDocument a c"
  show ?thesis
    using assms(2,3) s
      isBefore_cases[of "start (range_d a)" "start (range_d b)"]
      isBefore_cases[of "start (range_d b)" "start (range_d c)"]
      isBefore_trans[of "start (range_d c)" "start (range_d a)" "start (range_d b)"]
      isBefore_eq_right[of "start (range_d a)" "start (range_d b)" "start (range_d c)"]
      isBefore_not_sym[of "start (range_d b)" "start (range_d c)"]
    unfolding cmp_le_iff cmp_pos_iff
    by auto
next
  assume u: "uri a \<noteq> None \<and> uri b \<noteq> None \<and> uri c \<noteq> None"
  then obtain ua ub uc where [simp]: "uri a = Some ua" "uri b = Some ub" "uri c = Some uc" by auto
  show ?thesis
    using assms(2,3)
      isBefore_cases[of "start (range_d a)" "start (range_d b)"]
      isBefore_cases[of "start (range_d b)" "start (range_d c)"]
      isBefore_trans[of "start (range_d c)" "start (range_d a)" "start (range_d b)"]
      isBefore_eq_right[of "start (range_d a)" "start (range_d b)" "start (range_d c)"]
      isBefore_not_sym[of "start (range_d b)" "start (range_d c)"]
    unfolding cmp_le_iff cmp_pos_iff
    by (auto simp: sameDocument_def split: if_splits)
qed

lemmas sample_defs = locAt_def markerAt_def editorAt_def worldOf_def

lemmas cmp_eval = compareDiagnosticLoc_def isBefore_def isEqual_def

text \<open>
  C4. \<open>compareDiagnosticLoc\<close> returns equal on identical locations and is antisymmetric
  for all locations, a uri absent or not. It is transitive on three locations that all
  have a uri, and on three locations of which every two are compared by position (one
  of the two has no uri, or both have the same).
\<close>

theorem compareDiagnosticLoc_order:
  "compareDiagnosticLoc a a = 0 \<and>
   compareDiagnosticLoc b a = - compareDiagnosticLoc a b \<and>
   ((uri a \<noteq> None \<and> uri b \<noteq> None \<and> uri c \<noteq> None) \<or>
    (sameDocument a b \<and> sameDocument b c \<and> sameDocument a c) \<longrightarrow>
      (compareDiagnosticLoc a b \<le> 0 \<and> compareDiagnosticLoc b c \<le> 0 \<longrightarrow> compareDiagnosticLoc a c \<le> 0) \<and>
      (compareDiagnosticLoc a b < 0 \<and> compareDiagnosticLoc b c < 0 \<longrightarrow> compareDiagnosticLoc a c < 0))"
proof (intro conjI impI)
  show "compareDiagnosticLoc a a = 0" by (rule cmp_refl)
  show "compareDiagnosticLoc b a = - compareDiagnosticLoc a b" by (rule cmp_antisym)
next
  assume h: "(uri a \<noteq> None \<and> uri b \<noteq> None \<and> uri c \<noteq> None) \<or>
             (sameDocument a b \<and> sameDocument b c \<and> sameDocument a c)"
  {
    assume "compareDiagnosticLoc a b \<le> 0 \<and> compareDiagnosticLoc b c \<le> 0"
    then show "compareDiagnosticLoc a c \<le> 0" using cmp_trans_le[OF h] by blast
  }
  {
    assume "compareDiagnosticLoc a b < 0 \<and> compareDiagnosticLoc b c < 0"
    then show "compareDiagnosticLoc a c < 0" using cmp_trans_less[OF h] by blast
  }
qed

text \<open>Three locations in two documents, in ascending order.\<close>

theorem compareDiagnosticLoc_order_witness:
  "uri (locAt (Some ''a'') 2 0) \<noteq> None \<and> uri (locAt (Some ''a'') 7 1) \<noteq> None \<and>
   uri (locAt (Some ''b'') 0 0) \<noteq> None \<and>
   compareDiagnosticLoc (locAt (Some ''a'') 2 0) (locAt (Some ''a'') 7 1) < 0 \<and>
   compareDiagnosticLoc (locAt (Some ''a'') 7 1) (locAt (Some ''b'') 0 0) < 0 \<and>
   compareDiagnosticLoc (locAt (Some ''a'') 2 0) (locAt (Some ''b'') 0 0) < 0 \<and>
   compareDiagnosticLoc (locAt (Some ''b'') 0 0) (locAt (Some ''a'') 2 0) = 1"
  using compareDiagnosticLoc_order[of "locAt (Some ''a'') 2 0" "locAt (Some ''b'') 0 0" "locAt (Some ''a'') 7 1"]
    compareDiagnosticLoc_order[of "locAt (Some ''a'') 2 0" "locAt (Some ''a'') 7 1" "locAt (Some ''b'') 0 0"]
  by (simp add: locAt_def cmp_eval)

text \<open>
  Transitivity fails when a location without a uri stands between two documents: a
  marker of document b at line 1 is before a location at line 2 that has no uri, which
  is before a marker of document a at line 3, yet the first is after the third.
\<close>

theorem compareDiagnosticLoc_not_transitive:
  "compareDiagnosticLoc (locAt (Some ''b'') 1 0) (locAt None 2 0) = - 1 \<and>
   compareDiagnosticLoc (locAt None 2 0) (locAt (Some ''a'') 3 0) = - 1 \<and>
   compareDiagnosticLoc (locAt (Some ''b'') 1 0) (locAt (Some ''a'') 3 0) = 1"
  by (simp add: locAt_def cmp_eval)

subsection \<open>The fold of the selector\<close>

lemma foldNext_snoc: "foldNext C (S @ [x]) = getCloserNext C x (foldNext C S)"
  by (simp add: foldNext_def)

lemma foldNext_None: "foldNext C S = None \<longleftrightarrow> (\<forall>s\<in>set S. compareDiagnosticLoc s C < 0)"
  by (induction S rule: rev_induct)
     (auto simp: foldNext_snoc getCloserNext_def foldNext_def split: option.splits)

lemma foldNext_Some: "foldNext C S = Some m \<Longrightarrow> m \<in> set S \<and> compareDiagnosticLoc m C \<ge> 0"
  by (induction S arbitrary: m rule: rev_induct)
     (auto simp: foldNext_snoc getCloserNext_def foldNext_def split: option.splits if_splits)

lemma uriConsistent_butlast: "uriConsistent (S @ [x]) \<Longrightarrow> uriConsistent S"
  by (auto simp: uriConsistent_def)

lemma uriConsistent_triple:
  "uriConsistent S \<Longrightarrow> a \<in> set S \<Longrightarrow> b \<in> set S \<Longrightarrow> c \<in> set S \<Longrightarrow>
   (uri a \<noteq> None \<and> uri b \<noteq> None \<and> uri c \<noteq> None) \<or>
   (sameDocument a b \<and> sameDocument b c \<and> sameDocument a c)"
  unfolding uriConsistent_def by blast

lemma foldNext_least:
  "uriConsistent S \<Longrightarrow> foldNext C S = Some m \<Longrightarrow> s \<in> set S \<Longrightarrow> compareDiagnosticLoc s C \<ge> 0
     \<Longrightarrow> compareDiagnosticLoc m s \<le> 0"
proof (induction S arbitrary: m s rule: rev_induct)
  case Nil
  then show ?case by simp
next
  case (snoc x xs)
  have cons: "uriConsistent xs" using snoc.prems(1) by (rule uriConsistent_butlast)
  show ?case
  proof (cases "compareDiagnosticLoc x C \<ge> 0")
    case False
    then have "foldNext C (xs @ [x]) = foldNext C xs"
      by (simp add: foldNext_snoc getCloserNext_def split: option.splits)
    moreover have "s \<in> set xs" using snoc.prems(3,4) False by auto
    ultimately show ?thesis using snoc.IH[OF cons] snoc.prems by simp
  next
    case True
    show ?thesis
    proof (cases "foldNext C xs")
      case None
      then have m: "m = x" using snoc.prems(2) True by (simp add: foldNext_snoc getCloserNext_def)
      have "s = x" using None snoc.prems(3,4) foldNext_None[of C xs] by auto
      with m show ?thesis by (simp add: cmp_refl)
    next
      case (Some b)
      have bin: "b \<in> set xs" using foldNext_Some[OF Some] by simp
      show ?thesis
      proof (cases "compareDiagnosticLoc b x > 0")
        case gt: True
        then have m: "m = x"
          using snoc.prems(2) True Some by (simp add: foldNext_snoc getCloserNext_def)
        show ?thesis
        proof (cases "s = x")
          case True
          with m show ?thesis by (simp add: cmp_refl)
        next
          case False
          then have sin: "s \<in> set xs" using snoc.prems(3) by auto
          have bs: "compareDiagnosticLoc b s \<le> 0" using snoc.IH[OF cons Some sin snoc.prems(4)] .
          have xb: "compareDiagnosticLoc x b \<le> 0" using gt cmp_antisym[of b x] by simp
          have "compareDiagnosticLoc x s \<le> 0"
            by (rule cmp_trans_le[OF uriConsistent_triple[OF snoc.prems(1)] xb bs]) (use bin sin in auto)
          with m show ?thesis by simp
        qed
      next
        case le: False
        then have m: "m = b"
          using snoc.prems(2) True Some by (simp add: foldNext_snoc getCloserNext_def)
        show ?thesis
        proof (cases "s = x")
          case True
          with m le show ?thesis by simp
        next
          case False
          then have sin: "s \<in> set xs" using snoc.prems(3) by auto
          show ?thesis using snoc.IH[OF cons Some sin snoc.prems(4)] m by simp
        qed
      qed
    qed
  qed
qed

lemma uriConsistent_no_uri: "\<forall>s\<in>set S. uri s = None \<Longrightarrow> uriConsistent S"
  by (simp add: uriConsistent_def sameDocument_def)

lemma uriConsistent_all_uri: "\<forall>s\<in>set S. uri s \<noteq> None \<Longrightarrow> uriConsistent S"
  by (simp add: uriConsistent_def)

text \<open>
  C2. Folding \<open>getCloserNext\<close> over the candidates \<open>S\<close> from null yields null exactly
  when no element of \<open>S\<close> is at or after the cursor, and otherwise an element of \<open>S\<close>
  at or after the cursor. For the candidates of a navigation, which are uri-consistent
  (none has a uri in \<open>gotoMarkerInFile\<close>, each has one in \<open>gotoNextMarkerInFiles\<close>),
  that element is a minimum of the elements at or after the cursor, and it compares
  equal to every such minimum.
\<close>

theorem foldNext_minimum:
  "(foldNext C S = None \<longleftrightarrow> \<not> (\<exists>s\<in>set S. compareDiagnosticLoc s C \<ge> 0)) \<and>
   (\<forall>m. foldNext C S = Some m \<longrightarrow> m \<in> set S \<and> compareDiagnosticLoc m C \<ge> 0) \<and>
   (uriConsistent S \<longrightarrow>
      (\<forall>m. foldNext C S = Some m \<longrightarrow>
         isMinimumAtOrAfter C S m \<and>
         (\<forall>m'. isMinimumAtOrAfter C S m' \<longrightarrow> compareDiagnosticLoc m m' = 0)))"
proof (intro conjI impI allI)
  show "foldNext C S = None \<longleftrightarrow> \<not> (\<exists>s\<in>set S. compareDiagnosticLoc s C \<ge> 0)"
    using foldNext_None[of C S] by auto
next
  fix m assume "foldNext C S = Some m"
  then show "m \<in> set S" "compareDiagnosticLoc m C \<ge> 0" using foldNext_Some by auto
next
  fix m assume c: "uriConsistent S" and r: "foldNext C S = Some m"
  show min: "isMinimumAtOrAfter C S m"
    unfolding isMinimumAtOrAfter_def using foldNext_Some[OF r] foldNext_least[OF c r] by blast
  fix m' assume m': "isMinimumAtOrAfter C S m'"
  have 1: "compareDiagnosticLoc m m' \<le> 0" using min m' unfolding isMinimumAtOrAfter_def by blast
  have 2: "compareDiagnosticLoc m' m \<le> 0" using min m' unfolding isMinimumAtOrAfter_def by blast
  show "compareDiagnosticLoc m m' = 0" using 1 2 cmp_antisym[of m m'] by simp
qed

text \<open>
  The example of the specification, in one document: markers at lines 5, 10 and 1,
  cursor at line 7. And across documents: markers at line 1 of b and at lines 9 and 4
  of a, cursor at line 2 of a.
\<close>

theorem foldNext_minimum_witness:
  "uriConsistent [locAt None 5 0, locAt None 10 0, locAt None 1 0] \<and>
   foldNext (locAt None 7 0) [locAt None 5 0, locAt None 10 0, locAt None 1 0] = Some (locAt None 10 0) \<and>
   isMinimumAtOrAfter (locAt None 7 0) [locAt None 5 0, locAt None 10 0, locAt None 1 0] (locAt None 10 0) \<and>
   uriConsistent [locAt (Some ''b'') 1 0, locAt (Some ''a'') 9 0, locAt (Some ''a'') 4 0] \<and>
   foldNext (locAt (Some ''a'') 2 0) [locAt (Some ''b'') 1 0, locAt (Some ''a'') 9 0, locAt (Some ''a'') 4 0]
     = Some (locAt (Some ''a'') 4 0) \<and>
   isMinimumAtOrAfter (locAt (Some ''a'') 2 0)
     [locAt (Some ''b'') 1 0, locAt (Some ''a'') 9 0, locAt (Some ''a'') 4 0] (locAt (Some ''a'') 4 0)"
proof -
  have c: "uriConsistent [locAt None 5 0, locAt None 10 0, locAt None 1 0]"
    by (rule uriConsistent_no_uri) (simp add: locAt_def)
  have r: "foldNext (locAt None 7 0) [locAt None 5 0, locAt None 10 0, locAt None 1 0] = Some (locAt None 10 0)"
    by (simp add: foldNext_def getCloserNext_def locAt_def cmp_eval)
  have c': "uriConsistent [locAt (Some ''b'') 1 0, locAt (Some ''a'') 9 0, locAt (Some ''a'') 4 0]"
    by (rule uriConsistent_all_uri) (simp add: locAt_def)
  have r': "foldNext (locAt (Some ''a'') 2 0)
      [locAt (Some ''b'') 1 0, locAt (Some ''a'') 9 0, locAt (Some ''a'') 4 0] = Some (locAt (Some ''a'') 4 0)"
    by (simp add: foldNext_def getCloserNext_def locAt_def cmp_eval)
  show ?thesis
    using c r c' r'
      foldNext_minimum[of "locAt None 7 0" "[locAt None 5 0, locAt None 10 0, locAt None 1 0]"]
      foldNext_minimum[of "locAt (Some ''a'') 2 0"
        "[locAt (Some ''b'') 1 0, locAt (Some ''a'') 9 0, locAt (Some ''a'') 4 0]"]
    by simp
qed

subsection \<open>Sorting\<close>

text \<open>The modelled sort returns a permutation, in ascending order when the list is
  uri-consistent, so its first element is a least and its last a greatest marker.\<close>

lemma mset_insertSorted: "mset (insertSorted x ys) = add_mset x (mset ys)"
  by (induction ys) simp_all

lemma mset_sortDiagnostics: "mset (sortDiagnostics xs) = mset xs"
  by (induction xs) (simp_all add: sortDiagnostics_def mset_insertSorted)

lemma set_sortDiagnostics: "set (sortDiagnostics xs) = set xs"
  using mset_sortDiagnostics[of xs] by (metis set_mset_mset)

lemma set_insertSorted: "set (insertSorted x ys) = insert x (set ys)"
  using mset_insertSorted[of x ys] by (metis set_mset_mset set_mset_add_mset_insert)

lemma uriConsistent_Cons: "uriConsistent (x # xs) \<Longrightarrow> uriConsistent xs"
  by (auto simp: uriConsistent_def)

lemma uriConsistent_set: "uriConsistent xs \<Longrightarrow> set ys \<subseteq> set xs \<Longrightarrow> uriConsistent ys"
  unfolding uriConsistent_def by blast

lemma sorted_insertSorted:
  "uriConsistent (x # ys) \<Longrightarrow> sorted_wrt (\<lambda>a b. compareDiagnosticLoc a b \<le> 0) ys \<Longrightarrow>
   sorted_wrt (\<lambda>a b. compareDiagnosticLoc a b \<le> 0) (insertSorted x ys)"
proof (induction ys)
  case Nil
  show ?case by simp
next
  case (Cons y ys)
  have c: "uriConsistent (x # ys)" using Cons.prems(1) by (rule uriConsistent_set) auto
  show ?case
  proof (cases "compareDiagnosticLoc x y \<le> 0")
    case True
    have "compareDiagnosticLoc x z \<le> 0" if "z \<in> set ys" for z
    proof -
      have yz: "compareDiagnosticLoc y z \<le> 0" using Cons.prems(2) that by simp
      show ?thesis
        by (rule cmp_trans_le[OF uriConsistent_triple[OF Cons.prems(1)] True yz]) (use that in auto)
    qed
    then show ?thesis using True Cons.prems(2) by auto
  next
    case False
    then have "compareDiagnosticLoc y x \<le> 0" using cmp_antisym[of x y] by simp
    then show ?thesis using False Cons.prems(2) Cons.IH[OF c] by (auto simp: set_insertSorted)
  qed
qed

lemma sorted_sortDiagnostics:
  "uriConsistent xs \<Longrightarrow> sorted_wrt (\<lambda>a b. compareDiagnosticLoc a b \<le> 0) (sortDiagnostics xs)"
proof (induction xs)
  case Nil
  show ?case by (simp add: sortDiagnostics_def)
next
  case (Cons x xs)
  have s: "sorted_wrt (\<lambda>a b. compareDiagnosticLoc a b \<le> 0) (sortDiagnostics xs)"
    using Cons.IH uriConsistent_Cons[OF Cons.prems] by simp
  have c: "uriConsistent (x # sortDiagnostics xs)"
    using Cons.prems by (rule uriConsistent_set) (simp add: set_sortDiagnostics)
  have "sortDiagnostics (x # xs) = insertSorted x (sortDiagnostics xs)"
    by (simp add: sortDiagnostics_def)
  then show ?case using sorted_insertSorted[OF c s] by simp
qed

lemma hd_sortDiagnostics_least:
  assumes "uriConsistent xs" "x \<in> set xs"
  shows "compareDiagnosticLoc (hd (sortDiagnostics xs)) x \<le> 0"
proof -
  have x: "x \<in> set (sortDiagnostics xs)" using assms(2) by (simp add: set_sortDiagnostics)
  then obtain y ys where ys: "sortDiagnostics xs = y # ys" by (cases "sortDiagnostics xs") auto
  have "sorted_wrt (\<lambda>a b. compareDiagnosticLoc a b \<le> 0) (y # ys)"
    using sorted_sortDiagnostics[OF assms(1)] ys by simp
  then show ?thesis using x ys by (auto simp: cmp_refl)
qed

lemma last_sortDiagnostics_greatest:
  assumes "uriConsistent xs" "x \<in> set xs"
  shows "compareDiagnosticLoc x (last (sortDiagnostics xs)) \<le> 0"
proof -
  have x: "x \<in> set (sortDiagnostics xs)" using assms(2) by (simp add: set_sortDiagnostics)
  then obtain ys y where ys: "sortDiagnostics xs = ys @ [y]"
    by (cases "sortDiagnostics xs" rule: rev_cases) auto
  have "sorted_wrt (\<lambda>a b. compareDiagnosticLoc a b \<le> 0) (ys @ [y])"
    using sorted_sortDiagnostics[OF assms(1)] ys by simp
  then show ?thesis using x ys by (auto simp: cmp_refl sorted_wrt_append)
qed

subsection \<open>The pattern matcher\<close>

lemma rePattern_Nil: "rePattern [] = []"
  by (simp add: rePattern_def escapeRegExp_def expandStar_def)

lemma rePattern_Cons:
  "rePattern (c # p) =
     (if c \<in> set syntaxChars then [CHR 0x5C, c] else if c = CHR ''*'' then ''.*'' else [c]) @ rePattern p"
  by (simp add: rePattern_def escapeRegExp_def expandStar_def syntaxChars_def)

lemma rePattern_next: "\<exists>q r. rePattern p @ ''$'' = q # r \<and> q \<noteq> CHR ''*''"
  by (cases p) (auto simp: rePattern_Nil rePattern_Cons)

lemma parseRe_escaped:
  "e \<in> set syntaxChars \<Longrightarrow> q \<noteq> CHR ''*'' \<Longrightarrow>
   parseRe (CHR 0x5C # e # q # r) cur = parseRe (q # r) (One (Lit e) # cur)"
  by (subst parseRe.simps(2)) (simp del: parseRe.simps)

lemma parseRe_dotstar: "parseRe (CHR ''.'' # CHR ''*'' # r) cur = parseRe r (Star AnyChar # cur)"
  by (subst parseRe.simps(2)) (simp add: quantifierChars_def del: parseRe.simps)

lemma parseRe_plain:
  "c \<notin> set syntaxChars \<Longrightarrow> c \<noteq> CHR ''*'' \<Longrightarrow> c \<noteq> CHR ''|'' \<Longrightarrow> q \<noteq> CHR ''*'' \<Longrightarrow>
   parseRe (c # q # r) cur = parseRe (q # r) (One (Lit c) # cur)"
  by (subst parseRe.simps(2)) (simp add: quantifierChars_def syntaxChars_def del: parseRe.simps)

lemma parseRe_bar: "parseRe (CHR ''|'' # r) cur = map_option (Cons (rev cur)) (parseRe r [])"
  by (subst parseRe.simps(2)) (simp del: parseRe.simps)

text \<open>Every pattern compiles: the source text \<open>globToRe\<close> builds is inside the fragment.\<close>

lemma parseRe_rePattern: "parseRe (rePattern p @ ''$'') cur = Some (globAlts p cur)"
proof (induction p arbitrary: cur)
  case Nil
  show ?case by (simp add: rePattern_Nil)
next
  case (Cons c p)
  obtain q r where qr: "rePattern p @ ''$'' = q # r" and q: "q \<noteq> CHR ''*''"
    using rePattern_next[of p] by blast
  show ?case
  proof (cases "c \<in> set syntaxChars")
    case True
    then have c: "c \<noteq> CHR ''|''" "c \<noteq> CHR ''*''" by (auto simp: syntaxChars_def)
    have "parseRe (rePattern (c # p) @ ''$'') cur = parseRe (CHR 0x5C # c # q # r) cur"
      using True qr by (simp add: rePattern_Cons)
    also have "\<dots> = parseRe (q # r) (One (Lit c) # cur)"
      by (rule parseRe_escaped[OF True q])
    also have "\<dots> = Some (globAlts p (One (Lit c) # cur))"
      using Cons.IH[of "One (Lit c) # cur"] qr by simp
    finally show ?thesis using c by (simp add: globTerm_def)
  next
    case False
    show ?thesis
    proof (cases "c = CHR ''*''")
      case True
      have "parseRe (rePattern (c # p) @ ''$'') cur =
            parseRe (CHR ''.'' # CHR ''*'' # (rePattern p @ ''$'')) cur"
        using True False by (simp add: rePattern_Cons)
      also have "\<dots> = parseRe (rePattern p @ ''$'') (Star AnyChar # cur)"
        by (rule parseRe_dotstar)
      also have "\<dots> = Some (globAlts p (Star AnyChar # cur))"
        by (rule Cons.IH)
      finally show ?thesis using True by (simp add: globTerm_def)
    next
      case star: False
      show ?thesis
      proof (cases "c = CHR ''|''")
        case True
        have "parseRe (rePattern (c # p) @ ''$'') cur = parseRe (CHR ''|'' # (rePattern p @ ''$'')) cur"
          using True False by (simp add: rePattern_Cons)
        also have "\<dots> = map_option (Cons (rev cur)) (parseRe (rePattern p @ ''$'') [])"
          by (rule parseRe_bar)
        also have "\<dots> = Some (rev cur # globAlts p [])"
          by (simp add: Cons.IH)
        finally show ?thesis using True by simp
      next
        case bar: False
        have "parseRe (rePattern (c # p) @ ''$'') cur = parseRe (c # q # r) cur"
          using False star qr by (simp add: rePattern_Cons)
        also have "\<dots> = parseRe (q # r) (One (Lit c) # cur)"
          by (rule parseRe_plain[OF False star bar q])
        also have "\<dots> = Some (globAlts p (One (Lit c) # cur))"
          using Cons.IH[of "One (Lit c) # cur"] qr by simp
        finally show ?thesis using star bar by (simp add: globTerm_def)
      qed
    qed
  qed
qed

lemma globToRe_globAlts: "globToRe p = globAlts p [AssertStart]"
proof -
  have "parseRe (''^'' @ rePattern p @ ''$'') [] = parseRe (rePattern p @ ''$'') [AssertStart]"
    by simp
  then show ?thesis by (simp add: globToRe_def parseRe_rePattern)
qed

lemma globAlts_no_bar:
  "CHR ''|'' \<notin> set p \<Longrightarrow> globAlts p cur = [rev cur @ map globTerm p @ [AssertEnd]]"
  by (induction p arbitrary: cur) auto

lemma matchTerms_glob:
  "matchTerms (map globTerm p @ [AssertEnd]) b s = globMatchesWith (\<lambda>c. \<not> lineTerminator c) p s"
proof (induction "\<lambda>c. \<not> lineTerminator c" p s arbitrary: b rule: globMatchesWith.induct)
  case (1 s)
  show ?case by simp
next
  case (2 c p s)
  show ?case
  proof (cases "c = CHR ''*''")
    case True
    then show ?thesis using 2(1)[OF True, of b] 2(2)[OF True, of _ _ False]
      by (cases s) (simp_all add: globTerm_def atomMatches_def)
  next
    case False
    then show ?thesis using 2(3)[OF False, of _ _ False]
      by (cases s) (simp_all add: globTerm_def atomMatches_def)
  qed
qed

lemma searchFrom_anchored_False: "searchFrom [AssertStart # ts] False s = False"
  by (induction s) simp_all

lemma searchFrom_anchored: "searchFrom [AssertStart # ts] True s = matchTerms ts True s"
  by (cases s) (simp_all add: searchFrom_anchored_False)

lemma globMatchesWith_wild:
  "\<forall>x\<in>set s. wild x \<Longrightarrow> globMatchesWith wild p s = globMatchesWith (\<lambda>c. True) p s"
proof (induction wild p s rule: globMatchesWith.induct)
  case (1 wild s)
  show ?case by simp
next
  case (2 wild c p s)
  then show ?case by (cases s) auto
qed

lemma matchRe_no_bar:
  "CHR ''|'' \<notin> set p \<Longrightarrow> matchRe s (globToRe p) = globMatchesWith (\<lambda>c. \<not> lineTerminator c) p s"
  by (simp add: matchRe_def globToRe_globAlts globAlts_no_bar searchFrom_anchored matchTerms_glob)

lemma matchTerms_drop_end: "matchTerms (ts @ [AssertEnd]) b s \<Longrightarrow> matchTerms ts b s"
proof (induction ts b s rule: matchTerms.induct)
  case (1 atStart s)
  show ?case by simp
next
  case (2 ts atStart s)
  then show ?case by auto
next
  case (3 ts atStart s)
  then show ?case by auto
next
  case (4 a ts atStart s)
  then show ?case by (cases s) auto
next
  case (5 a ts atStart s)
  then show ?case by (cases s) auto
qed

lemma matchTerms_at_start:
  "pre = [] \<or> pre = [AssertStart] \<Longrightarrow> matchTerms (pre @ ts) True s = matchTerms ts True s"
  by (erule disjE) simp_all

lemma globAlts_alternative:
  assumes "alt \<in> set (splitBar p cur)"
    and "globMatchesWith (\<lambda>c. \<not> lineTerminator c) alt s"
    and "pre = [] \<or> pre = [AssertStart]"
  shows "list_ex (\<lambda>ts. matchTerms ts True s) (globAlts p (map globTerm cur @ rev pre))"
  using assms
proof (induction p arbitrary: cur pre)
  case Nil
  then have alt: "alt = rev cur" by simp
  have "matchTerms (map globTerm alt @ [AssertEnd]) True s"
    using Nil.prems(2) by (simp add: matchTerms_glob)
  then have "matchTerms (pre @ map globTerm alt @ [AssertEnd]) True s"
    using matchTerms_at_start[OF Nil.prems(3)] by simp
  then show ?case by (simp add: alt rev_map)
next
  case (Cons c p)
  show ?case
  proof (cases "c = CHR ''|''")
    case True
    then have "alt = rev cur \<or> alt \<in> set (splitBar p [])" using Cons.prems(1) by auto
    then show ?thesis
    proof
      assume alt: "alt = rev cur"
      have "matchTerms (map globTerm alt @ [AssertEnd]) True s"
        using Cons.prems(2) by (simp add: matchTerms_glob)
      then have "matchTerms (map globTerm alt) True s" by (rule matchTerms_drop_end)
      then have "matchTerms (pre @ map globTerm alt) True s"
        using matchTerms_at_start[OF Cons.prems(3)] by simp
      then show ?thesis using True by (simp add: alt rev_map)
    next
      assume "alt \<in> set (splitBar p [])"
      then have "list_ex (\<lambda>ts. matchTerms ts True s) (globAlts p (map globTerm [] @ rev []))"
        using Cons.prems(2) by (intro Cons.IH) simp_all
      then show ?thesis using True by simp
    qed
  next
    case False
    then have "alt \<in> set (splitBar p (c # cur))" using Cons.prems(1) by simp
    then have "list_ex (\<lambda>ts. matchTerms ts True s) (globAlts p (map globTerm (c # cur) @ rev pre))"
      using Cons.prems(2,3) by (intro Cons.IH)
    then show ?thesis using False by simp
  qed
qed

lemma searchFrom_at_start: "list_ex (\<lambda>ts. matchTerms ts True s) re \<Longrightarrow> searchFrom re True s"
  by (cases s) simp_all

lemma matchRe_alternative:
  assumes "alt \<in> set (alternatives p)" and "globMatchesWith (\<lambda>c. \<not> lineTerminator c) alt s"
  shows "matchRe s (globToRe p)"
proof -
  have "list_ex (\<lambda>ts. matchTerms ts True s) (globAlts p (map globTerm [] @ rev [AssertStart]))"
    using assms by (intro globAlts_alternative) (simp_all add: alternatives_def)
  then show ?thesis by (simp add: matchRe_def globToRe_globAlts searchFrom_at_start)
qed

lemma alternatives_no_bar: "CHR ''|'' \<notin> set p \<Longrightarrow> splitBar p cur = [rev cur @ p]"
  by (induction p arbitrary: cur) auto

text \<open>
  C6. On candidates without a line terminator: for a pattern without \<open>|\<close>, the matcher
  compiled by \<open>globToRe\<close> matches the whole candidate, \<open>*\<close> standing for zero or more
  characters and every other character for itself; and a \<open>|\<close> in the pattern is not a
  literal but separates alternatives, a candidate that one alternative matches as a whole
  being matched. (Characters are 8-bit here, so the line terminators are line feed and
  carriage return.)
\<close>

theorem globToRe_matches_whole_string:
  assumes "\<forall>x\<in>set s. \<not> lineTerminator x"
  shows "(CHR ''|'' \<notin> set p \<longrightarrow> matchRe s (globToRe p) = globMatchesWith (\<lambda>c. True) p s) \<and>
         ((\<exists>alt\<in>set (alternatives p). globMatchesWith (\<lambda>c. True) alt s) \<longrightarrow> matchRe s (globToRe p))"
proof (intro conjI impI)
  assume "CHR ''|'' \<notin> set p"
  then show "matchRe s (globToRe p) = globMatchesWith (\<lambda>c. True) p s"
    using globMatchesWith_wild[OF assms, of p] by (simp add: matchRe_no_bar)
next
  assume "\<exists>alt\<in>set (alternatives p). globMatchesWith (\<lambda>c. True) alt s"
  then obtain alt where a: "alt \<in> set (alternatives p)" and m: "globMatchesWith (\<lambda>c. True) alt s"
    by blast
  have "globMatchesWith (\<lambda>c. \<not> lineTerminator c) alt s"
    using globMatchesWith_wild[OF assms, of alt] m by simp
  with a show "matchRe s (globToRe p)" by (rule matchRe_alternative)
qed

theorem globToRe_matches_whole_string_witness:
  "matchRe ''jsonc'' (globToRe ''json*'') \<and> globMatchesWith (\<lambda>c. True) ''json*'' ''jsonc'' \<and>
   \<not> matchRe ''xjsonc'' (globToRe ''json*'') \<and> \<not> matchRe ''a.c'' (globToRe ''abc'') \<and>
   \<not> matchRe ''abc'' (globToRe ''a.c'') \<and>
   alternatives ''eslint|ts*'' = [''eslint'', ''ts*''] \<and>
   matchRe ''eslint'' (globToRe ''eslint|ts*'') \<and> matchRe ''tsc'' (globToRe ''eslint|ts*'')"
  using globToRe_matches_whole_string[of "''jsonc''" "''json*''"]
    globToRe_matches_whole_string[of "''xjsonc''" "''json*''"]
    globToRe_matches_whole_string[of "''a.c''" "''abc''"]
    globToRe_matches_whole_string[of "''abc''" "''a.c''"]
    globToRe_matches_whole_string[of "''eslint''" "''eslint|ts*''"]
    globToRe_matches_whole_string[of "''tsc''" "''eslint|ts*''"]
  by (simp add: lineTerminator_def alternatives_def)

text \<open>
  A \<open>|\<close> in the pattern is not matched literally: the pattern \<open>a|b\<close> matches the
  candidates a and b, which the matcher of the specification rejects.
\<close>

theorem globToRe_bar_is_alternation:
  "matchRe ''a'' (globToRe ''a|b'') \<and> \<not> globMatchesWith (\<lambda>c. True) ''a|b'' ''a'' \<and>
   matchRe ''b'' (globToRe ''a|b'') \<and> \<not> globMatchesWith (\<lambda>c. True) ''a|b'' ''b''"
  by (simp add: globToRe_globAlts globTerm_def matchRe_def atomMatches_def)


subsection \<open>The marker filter\<close>

lemma sourceLoop_Nil: "sourceLoop ps [] = []"
  by (induction ps) (simp_all add: Let_def)

lemma patternSelects_star: "patternSelects ''*'' d"
  by (simp add: patternSelects_def)

lemma sourceLoop_first:
  "\<exists>d\<in>set ds. patternSelects p d \<Longrightarrow> sourceLoop (p # ps) ds = filter (patternSelects p) ds"
proof (cases "p = ''*''")
  case True
  then show ?thesis by (simp add: patternSelects_def)
next
  case False
  have ps: "patternSelects p = matchesSource (globToRe p)"
    using False by (intro ext) (simp add: patternSelects_def)
  assume "\<exists>d\<in>set ds. patternSelects p d"
  then have "filter (matchesSource (globToRe p)) ds \<noteq> []"
    unfolding ps by (simp add: filter_empty_conv)
  then show ?thesis unfolding ps using False by (simp add: Let_def)
qed

lemma sourceLoop_skip:
  "p \<noteq> ''*'' \<Longrightarrow> \<forall>d\<in>set ds. \<not> matchesSource (globToRe p) d \<Longrightarrow> sourceLoop (p # ps) ds = sourceLoop ps ds"
  by (simp add: Let_def filter_empty_conv)

lemma sourceLoop_star:
  "\<forall>p\<in>set pre. \<forall>d\<in>set ds. \<not> matchesSource (globToRe p) d \<Longrightarrow> sourceLoop (pre @ ''*'' # post) ds = ds"
proof (induction pre)
  case Nil
  show ?case by simp
next
  case (Cons p pre)
  show ?case
  proof (cases "p = ''*''")
    case True
    then show ?thesis by simp
  next
    case False
    then have "sourceLoop ((p # pre) @ ''*'' # post) ds = sourceLoop (pre @ ''*'' # post) ds"
      using Cons.prems sourceLoop_skip[OF False, of ds] by simp
    then show ?thesis using Cons by simp
  qed
qed

lemma sourceLoop_none:
  "\<forall>p\<in>set ps. \<forall>d\<in>set ds. \<not> patternSelects p d \<Longrightarrow> sourceLoop ps ds = []"
proof (induction ps)
  case Nil
  show ?case by simp
next
  case (Cons p ps)
  show ?case
  proof (cases "p = ''*''")
    case True
    then have "ds = []" using Cons.prems by (cases ds) (auto simp: patternSelects_def)
    then show ?thesis by (simp add: sourceLoop_Nil)
  next
    case False
    have "\<forall>d\<in>set ds. \<not> matchesSource (globToRe p) d"
      using Cons.prems by (auto simp: patternSelects_def)
    then have "sourceLoop (p # ps) ds = sourceLoop ps ds" by (rule sourceLoop_skip[OF False])
    then show ?thesis using Cons by simp
  qed
qed

lemma filterDiagnostics_sources:
  "args_source a = Some ps \<Longrightarrow> filterDiagnostics ds (Some a) = sourceLoop ps (severityStage ds (Some a))"
  by (simp add: filterDiagnostics_def Let_def)

lemma sourceLoop_subset: "set (sourceLoop ps ds) \<subseteq> set ds"
  by (induction ps) (auto simp: Let_def)

lemma filterDiagnostics_subset: "set (filterDiagnostics ds args) \<subseteq> set ds"
  using sourceLoop_subset[of _ "severityStage ds args"]
  by (auto simp: filterDiagnostics_def Let_def severityStage_def split: option.splits)

lemma diagnosticsWithUri_uri: "d \<in> set (diagnosticsWithUri w) \<Longrightarrow> uri d \<noteq> None"
  by (auto simp: diagnosticsWithUri_def)

lemma filtered_withUri_consistent: "uriConsistent (filterDiagnostics (diagnosticsWithUri w) args)"
  using filterDiagnostics_subset[of "diagnosticsWithUri w" args] diagnosticsWithUri_uri[of _ w]
  unfolding uriConsistent_def by blast

lemma filtered_no_uri_consistent:
  "\<forall>d\<in>set ds. uri d = None \<Longrightarrow> uriConsistent (filterDiagnostics ds args)"
  using filterDiagnostics_subset[of ds args] by (intro uriConsistent_no_uri) blast

text \<open>
  C3. With a non-empty list of source patterns whose first pattern is \<open>p1\<close>: if a
  severity-retained marker has a defined source matching \<open>p1\<close>, the result is exactly
  the severity-retained markers that \<open>p1\<close> selects, so no marker that only a later
  pattern matches is in it (for \<open>p1\<close> other than \<open>"*"\<close> every marker of the result has a
  defined source matching \<open>p1\<close>). A pattern \<open>"*"\<close> that the loop reaches, because no
  pattern before it matches a marker, returns the whole severity-filtered list. If no
  pattern selects any marker, the result is empty.
\<close>

theorem filterDiagnostics_source_priority:
  assumes "args_source a = Some (p1 # ps)"
  shows "((\<exists>d\<in>set (severityStage ds (Some a)). matchesSource (globToRe p1) d) \<longrightarrow>
            filterDiagnostics ds (Some a) = filter (patternSelects p1) (severityStage ds (Some a)) \<and>
            (\<forall>d\<in>set (filterDiagnostics ds (Some a)). patternSelects p1 d) \<and>
            (p1 \<noteq> ''*'' \<longrightarrow> (\<forall>d\<in>set (filterDiagnostics ds (Some a)). matchesSource (globToRe p1) d))) \<and>
         (\<forall>pre post. p1 # ps = pre @ ''*'' # post \<and>
              (\<forall>p\<in>set pre. \<forall>d\<in>set (severityStage ds (Some a)). \<not> matchesSource (globToRe p) d) \<longrightarrow>
              filterDiagnostics ds (Some a) = severityStage ds (Some a)) \<and>
         ((\<forall>p\<in>set (p1 # ps). \<forall>d\<in>set (severityStage ds (Some a)). \<not> patternSelects p d) \<longrightarrow>
            filterDiagnostics ds (Some a) = [])"
proof (intro conjI impI allI)
  assume ex: "\<exists>d\<in>set (severityStage ds (Some a)). matchesSource (globToRe p1) d"
  then have ex': "\<exists>d\<in>set (severityStage ds (Some a)). patternSelects p1 d"
    by (auto simp: patternSelects_def)
  show eq: "filterDiagnostics ds (Some a) = filter (patternSelects p1) (severityStage ds (Some a))"
    using sourceLoop_first[OF ex'] by (simp add: filterDiagnostics_sources[OF assms])
  show "\<forall>d\<in>set (filterDiagnostics ds (Some a)). patternSelects p1 d"
    by (simp add: eq)
  assume "p1 \<noteq> ''*''"
  then show "\<forall>d\<in>set (filterDiagnostics ds (Some a)). matchesSource (globToRe p1) d"
    by (simp add: eq patternSelects_def)
next
  fix pre post
  assume "p1 # ps = pre @ ''*'' # post \<and>
     (\<forall>p\<in>set pre. \<forall>d\<in>set (severityStage ds (Some a)). \<not> matchesSource (globToRe p) d)"
  then show "filterDiagnostics ds (Some a) = severityStage ds (Some a)"
    using sourceLoop_star[of pre "severityStage ds (Some a)" post]
    by (simp add: filterDiagnostics_sources[OF assms])
next
  assume "\<forall>p\<in>set (p1 # ps). \<forall>d\<in>set (severityStage ds (Some a)). \<not> patternSelects p d"
  then show "filterDiagnostics ds (Some a) = []"
    using sourceLoop_none[of "p1 # ps" "severityStage ds (Some a)"]
    by (simp add: filterDiagnostics_sources[OF assms])
qed

text \<open>The example of the specification: patterns jsonc and \<open>*\<close>, markers of eslint and jsonc.\<close>

theorem filterDiagnostics_source_priority_witness:
  "filterDiagnostics
     [markerAt None 1 0 Error (Some ''eslint''), markerAt None 2 0 Error (Some ''jsonc'')]
     (Some \<lparr>args_severity = None, args_source = Some [''jsonc'', ''*'']\<rparr>)
   = [markerAt None 2 0 Error (Some ''jsonc'')]"
  using filterDiagnostics_source_priority[of "\<lparr>args_severity = None, args_source = Some [''jsonc'', ''*'']\<rparr>"
     "''jsonc''" "[''*'']" "[markerAt None 1 0 Error (Some ''eslint''), markerAt None 2 0 Error (Some ''jsonc'')]"]
  by (simp add: severityStage_def selectedSeverities_def markerAt_def patternSelects_def matchesSource_def
      globToRe_globAlts globTerm_def matchRe_def atomMatches_def)









text \<open>
  C7. \<open>isFilterErrorOnly\<close> should hold only for the filter of the single severity Error.
  The code looks at the first element of \<open>severity\<close> alone: for
  \<open>["error", "warning"]\<close> it returns true, although the filter keeps Warning markers.
\<close>

theorem isFilterErrorOnly_error_and_warning:
  "isFilterErrorOnly (Some \<lparr>args_severity = Some [''error'', ''warning''], args_source = None\<rparr>) \<and>
   filterDiagnostics [markerAt None 1 0 Warning None]
     (Some \<lparr>args_severity = Some [''error'', ''warning''], args_source = None\<rparr>)
     = [markerAt None 1 0 Warning None]"
  by (simp add: isFilterErrorOnly_def filterDiagnostics_def severityStage_def selectedSeverities_def
      severityOfString_def markerAt_def)

subsection \<open>The selectors\<close>

lemma getCloserPrev_None:
  "getCloserPrev cursor marker None = (if compareDiagnosticLoc marker cursor < 0 then Some marker else None)"
  by (simp add: getCloserPrev_def)

text \<open>
  C1. With no current best, \<open>getCloserPrev\<close> should accept a candidate at or before the
  cursor. The code tests \<open>compareDiagnosticLoc(marker, cursor) < 0\<close>: a candidate whose
  start equals the cursor position compares equal to the cursor and is rejected, where
  \<open>getCloserNext\<close> accepts it.
\<close>

theorem getCloserPrev_rejects_equal:
  "compareDiagnosticLoc (locAt None 3 0) (locAt None 3 0) = 0 \<and>
   getCloserPrev (locAt None 3 0) (locAt None 3 0) None = None \<and>
   getCloserNext (locAt None 3 0) (locAt None 3 0) None = Some (locAt None 3 0)"
  by (simp add: getCloserPrev_def getCloserNext_def locAt_def cmp_eval)

subsection \<open>The navigation session\<close>

lemma showMarkerInFile_fst: "fst (showMarkerInFile args editor n w) = True"
  by (simp add: showMarkerInFile_def Let_def)

lemma showMarkerInFile_lastPosition:
  "lastPosition (snd (showMarkerInFile args editor n w)) =
     Some \<lparr>uri_lp = document_uri editor, position = start (range_d n)\<rparr>"
  by (simp add: showMarkerInFile_def Let_def)

lemma showMarkerInFile_selection:
  "activeTextEditor (snd (showMarkerInFile args editor n w)) =
     Some (editor\<lparr>selection := \<lparr>start = start (range_d n), endp = start (range_d n)\<rparr>\<rparr>)"
  by (simp add: showMarkerInFile_def Let_def)

lemma resetLastPosition_eq:
  "resetLastPosition editor w =
     w\<lparr>lastPosition :=
         (case lastPosition w of
            None \<Rightarrow> None
          | Some lp \<Rightarrow> if uri_lp lp = document_uri editor then Some lp else None)\<rparr>"
  by (simp add: resetLastPosition_def split: option.splits)

lemma resetLastPosition_Some:
  "lastPosition (resetLastPosition editor w) = Some lp \<Longrightarrow> resetLastPosition editor w = w"
  by (auto simp: resetLastPosition_def split: if_splits)

text \<open>
  C9. \<open>gotoMarkerInFile\<close> returns false exactly when there is no active editor, the
  filtered set is empty, or the loop finds no neighbour and \<open>loop\<close> is off. Then nothing
  is changed but \<open>lastPosition\<close>: without an active editor it keeps its value; otherwise
  it keeps its value if that belongs to the active document and is reset to null if not.
\<close>

theorem gotoMarkerInFile_no_target:
  "(fst (gotoMarkerInFile args direction loop w) = False \<longleftrightarrow>
      (case activeTextEditor w of
         None \<Rightarrow> True
       | Some editor \<Rightarrow>
           filterDiagnostics (getDiagnostics w (document_uri editor)) args = [] \<or>
           (markerLoop (lastPosition (resetLastPosition editor w)) direction
              \<lparr>range_d = selection editor, uri = None\<rparr>
              (filterDiagnostics (getDiagnostics w (document_uri editor)) args) None = None \<and>
            loop = False))) \<and>
   (fst (gotoMarkerInFile args direction loop w) = False \<longrightarrow>
      snd (gotoMarkerInFile args direction loop w) =
        (case activeTextEditor w of
           None \<Rightarrow> w
         | Some editor \<Rightarrow>
             w\<lparr>lastPosition :=
                 (case lastPosition w of
                    None \<Rightarrow> None
                  | Some lp \<Rightarrow> if uri_lp lp = document_uri editor then Some lp else None)\<rparr>))"
proof (cases "activeTextEditor w")
  case None
  then show ?thesis by (simp add: gotoMarkerInFile_def)
next
  case (Some editor)
  show ?thesis
    using Some
    by (auto simp: gotoMarkerInFile_def Let_def showMarkerInFile_fst resetLastPosition_eq[symmetric]
        split: option.splits)
qed


theorem gotoMarkerInFile_no_target_witness:
  "fst (gotoMarkerInFile None Next False
          (worldOf (Some \<lparr>uri_lp = ''a'', position = \<lparr>line = 5, character = 0\<rparr>\<rparr>)
             (Some (editorAt ''a'' 7 0)) [(''a'', [markerAt None 5 0 Error None])])) = False \<and>
   snd (gotoMarkerInFile None Next False
          (worldOf (Some \<lparr>uri_lp = ''a'', position = \<lparr>line = 5, character = 0\<rparr>\<rparr>)
             (Some (editorAt ''a'' 7 0)) [(''a'', [markerAt None 5 0 Error None])]))
     = worldOf (Some \<lparr>uri_lp = ''a'', position = \<lparr>line = 5, character = 0\<rparr>\<rparr>)
         (Some (editorAt ''a'' 7 0)) [(''a'', [markerAt None 5 0 Error None])]"
  using gotoMarkerInFile_no_target[of None Next False
      "worldOf (Some \<lparr>uri_lp = ''a'', position = \<lparr>line = 5, character = 0\<rparr>\<rparr>)
         (Some (editorAt ''a'' 7 0)) [(''a'', [markerAt None 5 0 Error None])]"]
  by (simp add: sample_defs getDiagnostics_def filterDiagnostics_def severityStage_def
      selectedSeverities_def resetLastPosition_def getCloserNext_def cmp_eval)

text \<open>
  No marker in the active document b, \<open>lastPosition\<close> in document a: the call returns
  false and has reset \<open>lastPosition\<close>.
\<close>

theorem gotoMarkerInFile_resets_lastPosition:
  "fst (gotoMarkerInFile None Next True
          (worldOf (Some \<lparr>uri_lp = ''a'', position = \<lparr>line = 1, character = 0\<rparr>\<rparr>)
             (Some (editorAt ''b'' 0 0)) [])) = False \<and>
   lastPosition (snd (gotoMarkerInFile None Next True
          (worldOf (Some \<lparr>uri_lp = ''a'', position = \<lparr>line = 1, character = 0\<rparr>\<rparr>)
             (Some (editorAt ''b'' 0 0)) []))) = None \<and>
   lastPosition (worldOf (Some \<lparr>uri_lp = ''a'', position = \<lparr>line = 1, character = 0\<rparr>\<rparr>)
             (Some (editorAt ''b'' 0 0)) [])
     = Some \<lparr>uri_lp = ''a'', position = \<lparr>line = 1, character = 0\<rparr>\<rparr>"
  by (simp add: gotoMarkerInFile_def sample_defs getDiagnostics_def filterDiagnostics_def
      severityStage_def resetLastPosition_def)

lemma sortDiagnostics_Nil_iff: "sortDiagnostics xs = [] \<longleftrightarrow> xs = []"
proof -
  have "insertSorted x ys \<noteq> []" for x :: "'a DiagnosticLoc_scheme" and ys
    by (cases ys) auto
  then show ?thesis by (cases xs) (auto simp: sortDiagnostics_def)
qed

text \<open>
  C5. With \<open>loop\<close> on, a non-empty filtered set and a loop over the non-skipped
  candidates that yields null, the target is the first element of the sorted filtered
  set for next and the last for prev. If \<open>lastPosition\<close> (of the active document) and the
  start of the selection both equal the target's start, the call returns true and
  changes nothing; otherwise it returns true, \<open>lastPosition\<close> is the target's start in
  the active document and the selection is empty at the target's start.
\<close>

theorem gotoMarkerInFile_wraparound:
  assumes "activeTextEditor w = Some editor"
    and "filterDiagnostics (getDiagnostics w (document_uri editor)) args = filtered"
    and "filtered \<noteq> []"
    and "markerLoop (lastPosition (resetLastPosition editor w)) direction
           \<lparr>range_d = selection editor, uri = None\<rparr> filtered None = None"
    and "target = (case direction of Next \<Rightarrow> hd (sortDiagnostics filtered)
                                   | Prev \<Rightarrow> last (sortDiagnostics filtered))"
  shows "if (case lastPosition w of
               None \<Rightarrow> False
             | Some lp \<Rightarrow> uri_lp lp = document_uri editor \<and>
                          isEqual (position lp) (start (range_d target)) \<and>
                          isEqual (start (selection editor)) (start (range_d target)))
         then gotoMarkerInFile args direction True w = (True, w)
         else fst (gotoMarkerInFile args direction True w) = True \<and>
              lastPosition (snd (gotoMarkerInFile args direction True w)) =
                Some \<lparr>uri_lp = document_uri editor, position = start (range_d target)\<rparr> \<and>
              map_option selection (activeTextEditor (snd (gotoMarkerInFile args direction True w))) =
                Some \<lparr>start = start (range_d target), endp = start (range_d target)\<rparr>"
proof -
  have t: "wrapAround direction filtered = target"
    using assms(5) by (simp add: wrapAround_def Let_def)
  have g: "gotoMarkerInFile args direction True w =
        (if (case lastPosition (resetLastPosition editor w) of
               None \<Rightarrow> False
             | Some lp \<Rightarrow> isEqual (position lp) (start (range_d target)) \<and>
                          isEqual (start (selection editor)) (start (range_d target)))
         then (True, resetLastPosition editor w)
         else showMarkerInFile args editor target (resetLastPosition editor w))"
    using assms(1,2,3,4) t by (simp add: gotoMarkerInFile_def Let_def)
  show ?thesis
  proof (cases "lastPosition w")
    case None
    then show ?thesis
      by (simp add: g resetLastPosition_def showMarkerInFile_fst showMarkerInFile_lastPosition
          showMarkerInFile_selection)
  next
    case (Some lp)
    show ?thesis
    proof (cases "uri_lp lp = document_uri editor")
      case True
      then have r: "resetLastPosition editor w = w" using Some by (simp add: resetLastPosition_def)
      show ?thesis using Some True
        by (simp add: g r showMarkerInFile_fst showMarkerInFile_lastPosition showMarkerInFile_selection)
    next
      case False
      then have r: "lastPosition (resetLastPosition editor w) = None"
        using Some by (simp add: resetLastPosition_def)
      show ?thesis using Some False
        by (simp add: g r showMarkerInFile_fst showMarkerInFile_lastPosition showMarkerInFile_selection)
    qed
  qed
qed

text \<open>
  One marker at line 3 with \<open>lastPosition\<close> and the cursor on it: success, nothing moves.
  Markers at lines 5 and 1: next from line 7 wraps to line 1, prev from line 0 to line 5.
\<close>

theorem gotoMarkerInFile_wraparound_witness:
  "gotoMarkerInFile None Next True
     (worldOf (Some \<lparr>uri_lp = ''a'', position = \<lparr>line = 3, character = 0\<rparr>\<rparr>)
        (Some (editorAt ''a'' 3 0)) [(''a'', [markerAt None 3 0 Error None])])
   = (True, worldOf (Some \<lparr>uri_lp = ''a'', position = \<lparr>line = 3, character = 0\<rparr>\<rparr>)
        (Some (editorAt ''a'' 3 0)) [(''a'', [markerAt None 3 0 Error None])]) \<and>
   lastPosition (snd (gotoMarkerInFile None Next True
     (worldOf None (Some (editorAt ''a'' 7 0))
        [(''a'', [markerAt None 5 0 Error None, markerAt None 1 0 Warning None])])))
   = Some \<lparr>uri_lp = ''a'', position = \<lparr>line = 1, character = 0\<rparr>\<rparr> \<and>
   lastPosition (snd (gotoMarkerInFile None Prev True
     (worldOf None (Some (editorAt ''a'' 0 0))
        [(''a'', [markerAt None 5 0 Error None, markerAt None 1 0 Warning None])])))
   = Some \<lparr>uri_lp = ''a'', position = \<lparr>line = 5, character = 0\<rparr>\<rparr>"
  using gotoMarkerInFile_wraparound[of
      "worldOf (Some \<lparr>uri_lp = ''a'', position = \<lparr>line = 3, character = 0\<rparr>\<rparr>)
        (Some (editorAt ''a'' 3 0)) [(''a'', [markerAt None 3 0 Error None])]"
      "editorAt ''a'' 3 0" None "[markerAt None 3 0 Error None]" Next "markerAt None 3 0 Error None"]
    gotoMarkerInFile_wraparound[of
      "worldOf None (Some (editorAt ''a'' 7 0))
        [(''a'', [markerAt None 5 0 Error None, markerAt None 1 0 Warning None])]"
      "editorAt ''a'' 7 0" None "[markerAt None 5 0 Error None, markerAt None 1 0 Warning None]" Next
      "markerAt None 1 0 Warning None"]
    gotoMarkerInFile_wraparound[of
      "worldOf None (Some (editorAt ''a'' 0 0))
        [(''a'', [markerAt None 5 0 Error None, markerAt None 1 0 Warning None])]"
      "editorAt ''a'' 0 0" None "[markerAt None 5 0 Error None, markerAt None 1 0 Warning None]" Prev
      "markerAt None 5 0 Error None"]
  by (simp add: sample_defs getDiagnostics_def filterDiagnostics_def severityStage_def
      selectedSeverities_def resetLastPosition_def getCloserNext_def getCloserPrev_def cmp_eval
      sortDiagnostics_def)

lemma markerLoop_filter:
  "markerLoop (Some lp) direction cursor ds acc =
     markerLoop None direction cursor
       (filter (\<lambda>d. \<not> isEqual (start (range_d d)) (position lp)) ds) acc"
  by (induction ds arbitrary: acc) simp_all

lemma markerLoop_None_Next: "markerLoop None Next cursor ds acc = foldl (\<lambda>best d. getCloserNext cursor d best) acc ds"
  by (induction ds arbitrary: acc) simp_all

lemma markerLoop_foldNext: "markerLoop None Next cursor ds None = foldNext cursor ds"
  by (simp add: markerLoop_None_Next foldNext_def)

lemma markerLoop_Some_foldNext:
  "markerLoop (Some lp) Next cursor ds None =
     foldNext cursor (filter (\<lambda>d. \<not> isEqual (start (range_d d)) (position lp)) ds)"
  by (simp add: markerLoop_filter markerLoop_foldNext)

text \<open>
  The loop of a next navigation returns a minimum of the non-skipped candidates at or
  after the cursor.
\<close>

lemma markerLoop_Next_minimum:
  assumes "uriConsistent ds" and "markerLoop lastPos Next cursor ds None = Some m"
  shows "isMinimumAtOrAfter cursor
           (filter (\<lambda>d. case lastPos of None \<Rightarrow> True
                          | Some lp \<Rightarrow> \<not> isEqual (start (range_d d)) (position lp)) ds) m"
proof -
  let ?S = "filter (\<lambda>d. case lastPos of None \<Rightarrow> True
                          | Some lp \<Rightarrow> \<not> isEqual (start (range_d d)) (position lp)) ds"
  have c: "uriConsistent ?S" using assms(1) by (rule uriConsistent_set) simp
  have r: "foldNext cursor ?S = Some m"
    using assms(2) by (cases lastPos) (simp_all add: markerLoop_foldNext markerLoop_Some_foldNext)
  show ?thesis
    unfolding isMinimumAtOrAfter_def using foldNext_Some[OF r] foldNext_least[OF c r] by blast
qed

lemma markerLoop_None_Prev: "markerLoop None Prev cursor ds acc = foldl (\<lambda>best d. getCloserPrev cursor d best) acc ds"
  by (induction ds arbitrary: acc) simp_all

lemma markerLoop_None_mem:
  "markerLoop None direction cursor ds acc = Some m \<Longrightarrow> m \<in> set ds \<or> acc = Some m"
proof (induction ds arbitrary: acc)
  case Nil
  then show ?case by simp
next
  case (Cons d ds)
  then show ?case
    by (cases direction; cases acc)
       (fastforce simp: getCloserNext_def getCloserPrev_def split: if_splits)+
qed

lemma markerLoop_mem:
  "markerLoop lastPos direction cursor ds None = Some m \<Longrightarrow> m \<in> set ds"
proof (cases lastPos)
  case None
  assume "markerLoop lastPos direction cursor ds None = Some m"
  then show ?thesis using None markerLoop_None_mem[of direction cursor ds None m] by simp
next
  case (Some lp)
  assume "markerLoop lastPos direction cursor ds None = Some m"
  then have "markerLoop None direction cursor
      (filter (\<lambda>d. \<not> isEqual (start (range_d d)) (position lp)) ds) None = Some m"
    using Some by (simp add: markerLoop_filter)
  from markerLoop_None_mem[OF this] show ?thesis by simp
qed

lemma wrapAround_mem: "ds \<noteq> [] \<Longrightarrow> wrapAround direction ds \<in> set ds"
proof -
  assume "ds \<noteq> []"
  then have n: "sortDiagnostics ds \<noteq> []" by (simp add: sortDiagnostics_Nil_iff)
  then have "hd (sortDiagnostics ds) \<in> set (sortDiagnostics ds)"
    and "last (sortDiagnostics ds) \<in> set (sortDiagnostics ds)" by simp_all
  then show ?thesis by (cases direction) (simp_all add: wrapAround_def set_sortDiagnostics)
qed

text \<open>
  The target of \<open>gotoNextMarkerInFiles\<close> is one of the markers built with a uri, so
  \<open>uriOf\<close> never takes its \<open>None\<close> branch there.
\<close>

lemma gotoNextMarkerInFiles_target_uri:
  assumes "diagnostics = filterDiagnostics (diagnosticsWithUri w) args" and "diagnostics \<noteq> []"
    and "n = (case markerLoop lastPos direction cursor diagnostics None of
                None \<Rightarrow> wrapAround direction diagnostics | Some m \<Rightarrow> m)"
  shows "n \<in> set diagnostics \<and> uri n \<noteq> None"
proof -
  have "n \<in> set diagnostics"
    using assms(2,3) markerLoop_mem[of lastPos direction cursor diagnostics]
      wrapAround_mem[of diagnostics direction]
    by (cases "markerLoop lastPos direction cursor diagnostics None") auto
  moreover have "set diagnostics \<subseteq> set (diagnosticsWithUri w)"
    unfolding assms(1) by (rule filterDiagnostics_subset)
  ultimately show ?thesis using diagnosticsWithUri_uri[of n w] by blast
qed

text \<open>
  C10. The loop skips by position alone. With \<open>lastPosition\<close> set, its result is the
  result of the loop without \<open>lastPosition\<close> over the markers whose start differs from
  \<open>lastPosition.position\<close>, whatever their document; it does not depend on the document
  of \<open>lastPosition\<close>, and neither does \<open>gotoNextMarkerInFiles\<close>; the loop never returns
  a marker whose start equals \<open>lastPosition.position\<close>.
\<close>

theorem markerLoop_skips_by_position_only:
  "markerLoop (Some lp) direction cursor ds None =
     markerLoop None direction cursor
       (filter (\<lambda>d. \<not> isEqual (start (range_d d)) (position lp)) ds) None \<and>
   markerLoop (Some (lp\<lparr>uri_lp := u\<rparr>)) direction cursor ds None =
     markerLoop (Some lp) direction cursor ds None \<and>
   (\<forall>m. markerLoop (Some lp) direction cursor ds None = Some m \<longrightarrow>
        m \<in> set ds \<and> \<not> isEqual (start (range_d m)) (position lp)) \<and>
   (filterDiagnostics (diagnosticsWithUri w) args \<noteq> [] \<longrightarrow>
      gotoNextMarkerInFiles args direction (w\<lparr>lastPosition := Some (lp\<lparr>uri_lp := u\<rparr>)\<rparr>) =
      gotoNextMarkerInFiles args direction (w\<lparr>lastPosition := Some lp\<rparr>))"
proof (intro conjI allI impI)
  show "markerLoop (Some lp) direction cursor ds None =
     markerLoop None direction cursor
       (filter (\<lambda>d. \<not> isEqual (start (range_d d)) (position lp)) ds) None"
    by (rule markerLoop_filter)
  show u: "markerLoop (Some (lp\<lparr>uri_lp := u\<rparr>)) direction cursor ds None =
     markerLoop (Some lp) direction cursor ds None" for cursor :: "'x DiagnosticLoc_scheme" and ds :: "'y DiagnosticLoc_scheme list"
    by (simp add: markerLoop_filter)
  {
    fix m assume "markerLoop (Some lp) direction cursor ds None = Some m"
    then have "markerLoop None direction cursor
        (filter (\<lambda>d. \<not> isEqual (start (range_d d)) (position lp)) ds) None = Some m"
      by (simp add: markerLoop_filter)
    from markerLoop_None_mem[OF this]
    have "m \<in> set (filter (\<lambda>d. \<not> isEqual (start (range_d d)) (position lp)) ds)" by simp
    then show "m \<in> set ds" "\<not> isEqual (start (range_d m)) (position lp)" by auto
  }
  assume "filterDiagnostics (diagnosticsWithUri w) args \<noteq> []"
  then show "gotoNextMarkerInFiles args direction (w\<lparr>lastPosition := Some (lp\<lparr>uri_lp := u\<rparr>)\<rparr>) =
      gotoNextMarkerInFiles args direction (w\<lparr>lastPosition := Some lp\<rparr>)"
    by (simp add: gotoNextMarkerInFiles_def diagnosticsWithUri_def Let_def markerLoop_filter)
qed

text \<open>
  \<open>lastPosition\<close> at line 1 of document a, markers at lines 1 and 2 of document b: the
  marker at line 1 of b is skipped and the target is line 2 of b. Without
  \<open>lastPosition\<close> the target is line 1 of b.
\<close>

theorem markerLoop_skips_by_position_only_witness:
  "markerLoop (Some \<lparr>uri_lp = ''a'', position = \<lparr>line = 1, character = 0\<rparr>\<rparr>) Next
     (locAt (Some ''a'') 1 0)
     [markerAt (Some ''b'') 1 0 Error None, markerAt (Some ''b'') 2 0 Error None] None
   = Some (markerAt (Some ''b'') 2 0 Error None) \<and>
   lastPosition (gotoNextMarkerInFiles None Next
     (worldOf (Some \<lparr>uri_lp = ''a'', position = \<lparr>line = 1, character = 0\<rparr>\<rparr>) (Some (editorAt ''a'' 1 0))
        [(''b'', [markerAt None 1 0 Error None, markerAt None 2 0 Error None])]))
   = Some \<lparr>uri_lp = ''b'', position = \<lparr>line = 2, character = 0\<rparr>\<rparr> \<and>
   lastPosition (gotoNextMarkerInFiles None Next
     (worldOf None (Some (editorAt ''a'' 1 0))
        [(''b'', [markerAt None 1 0 Error None, markerAt None 2 0 Error None])]))
   = Some \<lparr>uri_lp = ''b'', position = \<lparr>line = 1, character = 0\<rparr>\<rparr>"
  using markerLoop_skips_by_position_only[of
      "\<lparr>uri_lp = ''a'', position = \<lparr>line = 1, character = 0\<rparr>\<rparr>" Next "locAt (Some ''a'') 1 0"
      "[markerAt (Some ''b'') 1 0 Error None, markerAt (Some ''b'') 2 0 Error None]" "''b''"
      "worldOf None (Some (editorAt ''a'' 1 0))
        [(''b'', [markerAt None 1 0 Error None, markerAt None 2 0 Error None])]" None]
  by (simp add: sample_defs gotoNextMarkerInFiles_def diagnosticsWithUri_def filterDiagnostics_def
      severityStage_def selectedSeverities_def getCloserNext_def cmp_eval uriOf_def)

end
